theory Spec2Isabelle
  imports Main "HOL-Library.Word"
begin

unbundle bit_operations_syntax

section \<open>Common vocabulary\<close>

text \<open>
  Every way in which the C++ leaves the normal control flow is a value of \<open>error\<close>:
  a failed \<open>NPUW_ASSERT\<close>, the \<open>OPENVINO_THROW\<close> of the wiring (carrying the two subgraph
  indices its message prints), the \<open>OPENVINO_THROW\<close> of the failover loop, the
  \<open>std::out_of_range\<close> of \<open>at()\<close>, an exception of a subrequest, the two kinds of
  undefined behaviour the code can run into (a null handle that is dereferenced, a
  memory access or vector index out of range), and the \<open>std::bad_optional_access\<close> of
  \<open>value()\<close> on an empty \<open>std::optional\<close>.
\<close>

datatype error =
    AssertFailed
  | FatalOptimizedOut nat nat
  | NoMoreDevices
  | OutOfRange
  | InferFailed
  | NullDeref
  | OutOfBounds
  | BadOptionalAccess

datatype element_type =
  boolean | bf16 | f16 | f32 | f64 | i4 | i8 | i16 | i32 | i64 | u1 | u4 | u8 | u16 | u32 | u64

text \<open>\<open>ov::element::Type::size()\<close>: the bytes of one element (a sub-byte type occupies one).\<close>

fun type_size :: "element_type \<Rightarrow> nat" where
  "type_size boolean = 1"
| "type_size bf16 = 2"
| "type_size f16 = 2"
| "type_size f32 = 4"
| "type_size f64 = 8"
| "type_size i4 = 1"
| "type_size i8 = 1"
| "type_size i16 = 2"
| "type_size i32 = 4"
| "type_size i64 = 8"
| "type_size u1 = 1"
| "type_size u4 = 1"
| "type_size u8 = 1"
| "type_size u16 = 2"
| "type_size u32 = 4"
| "type_size u64 = 8"

text \<open>
  A loop \<open>for (x : xs) body\<close> whose body may throw: the first error ends it. The
  functions of util.cpp throw an \<open>error\<close>; those of the inference request throw an
  \<open>error\<close> together with the state the request is left in.
\<close>

fun for_each :: "'i list \<Rightarrow> ('i \<Rightarrow> 's \<Rightarrow> 'e + 's) \<Rightarrow> 's \<Rightarrow> 'e + 's" where
  "for_each [] body s = Inr s"
| "for_each (x # xs) body s =
     (case body x s of Inl e \<Rightarrow> Inl e | Inr s' \<Rightarrow> for_each xs body s')"

section \<open>util.cpp: tensors with their storage\<close>

type_synonym byte = "8 word"

text \<open>
  A tensor of util.cpp together with the memory \<open>data()\<close> points to, as a list of
  elements of the type the code reads it at (\<open>uint8_t\<close> or \<open>int64_t\<close>).
\<close>

record 'a tensor =
  element_type :: element_type
  shape :: "nat list"
  data :: "'a list"

definition hi4 :: "byte \<Rightarrow> byte" where
  "hi4 x = drop_bit 4 x"

definition lo4 :: "byte \<Rightarrow> byte" where
  "lo4 x = x AND 0xF"

subsection \<open>tread_4b, twrite_4b, transpose\<close>

text \<open>
  \<open>tdata + r * COLS / 2 + c / 2\<close> is the byte that is read or written. The sizes are
  \<open>nat\<close>: \<open>r * COLS\<close> stays below twice the buffer's length on every access that is in
  range, so \<open>size_t\<close> does not wrap. An access outside the buffer is \<open>OutOfBounds\<close>.
\<close>

definition tread_4b :: "byte list \<Rightarrow> nat \<Rightarrow> nat \<Rightarrow> nat \<Rightarrow> error + byte" where
  "tread_4b tdata r c COLS =
     (let telem = r * COLS div 2 + c div 2 in
      if telem < length tdata
      then Inr (if c mod 2 = 0 then lo4 (tdata ! telem) else hi4 (tdata ! telem))
      else Inl OutOfBounds)"

definition twrite_4b :: "byte list \<Rightarrow> byte \<Rightarrow> nat \<Rightarrow> nat \<Rightarrow> nat \<Rightarrow> error + byte list" where
  "twrite_4b tdata v r c COLS =
     (let telem = r * COLS div 2 + c div 2 in
      if telem < length tdata
      then Inr (tdata[telem :=
             (if c mod 2 = 0
              then push_bit 4 (hi4 (tdata ! telem)) OR lo4 v
              else push_bit 4 (lo4 v) OR lo4 (tdata ! telem))])
      else Inl OutOfBounds)"

text \<open>
  \<open>transpose\<close> allocates \<open>tnew\<close> and fills it nibble by nibble. The allocation is not
  initialised by the code, so its first contents are the parameter \<open>fresh\<close>.
\<close>

definition transpose_cell ::
  "byte list \<Rightarrow> nat \<Rightarrow> nat \<Rightarrow> nat \<Rightarrow> nat \<Rightarrow> byte list \<Rightarrow> error + byte list" where
  "transpose_cell t IN_ROWS IN_COLS i j tnew =
     (case tread_4b t i j IN_COLS of
        Inl e \<Rightarrow> Inl e
      | Inr v \<Rightarrow> twrite_4b tnew v j i IN_ROWS)"

definition transpose_t :: "byte list \<Rightarrow> byte tensor \<Rightarrow> error + byte tensor" where
  "transpose_t fresh t =
     (if length (shape t) \<noteq> 3 then Inl AssertFailed
      else if element_type t \<noteq> i4 then Inl AssertFailed
      else
        let tshape = [shape t ! 2, shape t ! 0, shape t ! 1];
            IN_ROWS = shape t ! 0 * shape t ! 1;
            IN_COLS = shape t ! 2
        in case for_each [0..<IN_ROWS] (\<lambda>i.
                  for_each [0..<IN_COLS] (transpose_cell (data t) IN_ROWS IN_COLS i)) fresh of
             Inl e \<Rightarrow> Inl e
           | Inr d \<Rightarrow> Inr \<lparr>element_type = element_type t, shape = tshape, data = d\<rparr>)"

text \<open>Three transpositions in succession, each into its own fresh allocation.\<close>

definition transpose_thrice ::
  "byte list \<Rightarrow> byte list \<Rightarrow> byte list \<Rightarrow> byte tensor \<Rightarrow> error + byte tensor" where
  "transpose_thrice f1 f2 f3 t =
     (case transpose_t f1 t of
        Inl e \<Rightarrow> Inl e
      | Inr t1 \<Rightarrow>
          (case transpose_t f2 t1 of
             Inl e \<Rightarrow> Inl e
           | Inr t2 \<Rightarrow> transpose_t f3 t2))"

text \<open>The 4-bit elements of a tensor, in storage order: element \<open>k\<close> is nibble \<open>k\<close>.\<close>

definition nib :: "byte list \<Rightarrow> nat \<Rightarrow> byte" where
  "nib d k = (if even k then lo4 (d ! (k div 2)) else hi4 (d ! (k div 2)))"

definition elements :: "byte tensor \<Rightarrow> byte list" where
  "elements t = map (nib (data t)) [0..<prod_list (shape t)]"

subsection \<open>gather\<close>

text \<open>
  \<open>std::copy_n(pSrc + soff, n, pDst + doff)\<close> on two buffers; reading or writing past
  the end of either is \<open>OutOfBounds\<close>.
\<close>

definition copy_n :: "byte list \<Rightarrow> nat \<Rightarrow> nat \<Rightarrow> byte list \<Rightarrow> nat \<Rightarrow> error + byte list" where
  "copy_n src soff n dst doff =
     (if soff + n \<le> length src \<and> doff + n \<le> length dst
      then Inr (take doff dst @ take n (drop soff src) @ drop (doff + n) dst)
      else Inl OutOfBounds)"

text \<open>
  The row offset \<open>src_shape[1] * srcRowIdx * src_type.size()\<close> is computed in \<open>size_t\<close>:
  the \<open>int64_t\<close> index is converted to unsigned (the same 64 bits) and the products wrap.
\<close>

definition src_row_offset :: "nat \<Rightarrow> 64 word \<Rightarrow> nat \<Rightarrow> nat" where
  "src_row_offset cols srcRowIdx sz = unat (of_nat cols * srcRowIdx * of_nat sz :: 64 word)"

text \<open>The loop state is the destination buffer and the offset of \<open>pDst\<close> in it.\<close>

definition gather_row ::
  "byte tensor \<Rightarrow> 64 word tensor \<Rightarrow> nat \<Rightarrow> nat \<Rightarrow> byte list \<times> nat \<Rightarrow> error + byte list \<times> nat" where
  "gather_row src idx dst_cols r st =
     (if r < length (data idx) then
        let srcRowIdx = data idx ! r;
            sz = type_size (element_type src);
            pSrcRow = src_row_offset (shape src ! 1) srcRowIdx sz
        in case copy_n (data src) pSrcRow (shape src ! 1 * sz) (fst st) (snd st) of
             Inl e \<Rightarrow> Inl e
           | Inr d \<Rightarrow> Inr (d, snd st + dst_cols * sz)
      else Inl OutOfBounds)"

definition gather :: "byte tensor \<Rightarrow> 64 word tensor \<Rightarrow> byte tensor \<Rightarrow> error + byte tensor" where
  "gather src idx dst =
     (if element_type idx \<noteq> i64 then Inl AssertFailed
      else if \<not> (element_type src = f16 \<or> element_type src = f32) then Inl AssertFailed
      else if element_type src \<noteq> element_type dst then Inl AssertFailed
      else if length (shape idx) \<noteq> 2 then Inl AssertFailed
      else if shape idx ! 0 \<noteq> 1 then Inl AssertFailed
      else if length (shape src) \<noteq> 2 then Inl AssertFailed
      else if length (shape dst) \<noteq> 3 then Inl AssertFailed
      else if shape src ! 1 \<noteq> shape dst ! 2 then Inl AssertFailed
      else
        case for_each [0..<shape idx ! 1] (gather_row src idx (shape dst ! 2)) (data dst, 0) of
          Inl e \<Rightarrow> Inl e
        | Inr st \<Rightarrow> Inr (dst\<lparr>data := fst st\<rparr>))"

subsection \<open>Notions used to state the properties of util.cpp\<close>

text \<open>Writing the nibble \<open>k\<close> of a buffer, the other nibble of its byte kept.\<close>

definition nib_upd :: "byte list \<Rightarrow> nat \<Rightarrow> byte \<Rightarrow> byte list" where
  "nib_upd d k v = d[k div 2 :=
      (if even k then push_bit 4 (hi4 (d ! (k div 2))) OR lo4 v
       else push_bit 4 (lo4 v) OR lo4 (d ! (k div 2)))]"


text \<open>
  The conditions \<open>gather\<close> asserts, and the tensors it is meant for: buffers as large as
  their shapes say, rows that are not empty, and sizes and indices small enough for the
  \<open>size_t\<close> products of the row offsets not to wrap.
\<close>

definition gather_asserts :: "byte tensor \<Rightarrow> 64 word tensor \<Rightarrow> byte tensor \<Rightarrow> bool" where
  "gather_asserts src idx dst \<longleftrightarrow>
     element_type idx = i64 \<and>
     (element_type src = f16 \<or> element_type src = f32) \<and>
     element_type src = element_type dst \<and>
     length (shape idx) = 2 \<and> shape idx ! 0 = 1 \<and>
     length (shape src) = 2 \<and>
     length (shape dst) = 3 \<and> shape src ! 1 = shape dst ! 2"

definition dense :: "byte tensor \<Rightarrow> bool" where
  "dense t \<longleftrightarrow> length (data t) = prod_list (shape t) * type_size (element_type t)"

definition src_row :: "byte tensor \<Rightarrow> 64 word \<Rightarrow> byte list" where
  "src_row src w =
     take (shape src ! 1 * type_size (element_type src))
       (drop (src_row_offset (shape src ! 1) w (type_size (element_type src))) (data src))"

definition gather_wf :: "byte tensor \<Rightarrow> 64 word tensor \<Rightarrow> byte tensor \<Rightarrow> bool" where
  "gather_wf src idx dst \<longleftrightarrow>
     dense src \<and> dense dst \<and> length (data idx) = prod_list (shape idx) \<and>
     0 < shape src ! 1 \<and> length (data src) < 2 ^ 63 \<and>
     (\<forall>r < shape idx ! 1.
        \<bar>sint (data idx ! r)\<bar> * int (shape src ! 1 * type_size (element_type src)) < 2 ^ 63)"

definition rows_in_range :: "byte tensor \<Rightarrow> 64 word tensor \<Rightarrow> byte tensor \<Rightarrow> bool" where
  "rows_in_range src idx dst \<longleftrightarrow>
     (\<forall>r < shape idx ! 1. 0 \<le> sint (data idx ! r) \<and> sint (data idx ! r) < int (shape src ! 0)) \<and>
     shape idx ! 1 \<le> shape dst ! 0 * shape dst ! 1"


section \<open>just_sync_infer_request.cpp: the data model\<close>

subsection \<open>Tensor handles and views\<close>

text \<open>
  An \<open>ov::SoPtr<ov::ITensor>\<close> as the request sees it: the allocation it points into, the
  byte offset of its first element there, its element type, shape and strides. Two
  handles are the same tensor when they are equal. The request never reads the
  elements; what the kernels and the subrequests do with them is outside of it. An
  allocation is either one handed to the request or made by it, or the tensor a
  subrequest (known by its identity) creates for one of its ports, or the copy the
  weights bank keeps of an allocation for a device.
\<close>

datatype io = In | Out

datatype buffer_id = Allocated nat | OfRequest nat io nat | InBank buffer_id string

record itensor =
  buffer :: buffer_id
  byte_offset :: nat
  elem :: element_type
  dims :: "nat list"
  strides :: "nat list"

text \<open>
  \<open>dense_tensor b t ds\<close> is a whole allocation \<open>b\<close> of type \<open>t\<close> and shape \<open>ds\<close>, as
  \<open>ov::Tensor(type, shape)\<close> makes it: with row-major strides in bytes.
\<close>

definition dense_tensor :: "buffer_id \<Rightarrow> element_type \<Rightarrow> nat list \<Rightarrow> itensor" where
  "dense_tensor b t ds =
     \<lparr>buffer = b, byte_offset = 0, elem = t, dims = ds,
      strides = map (\<lambda>d. type_size t * prod_list (drop (Suc d) ds)) [0..<length ds]\<rparr>"

text \<open>\<open>size_t\<close> subtraction and addition, on values below \<open>2 ^ 64\<close>.\<close>

definition size_sub :: "nat \<Rightarrow> nat \<Rightarrow> nat" where
  "size_sub a b = (a + 2 ^ 64 - b) mod 2 ^ 64"

definition size_add :: "nat \<Rightarrow> nat \<Rightarrow> nat" where
  "size_add a b = (a + b) mod 2 ^ 64"

text \<open>
  \<open>util::view(src, from, to)\<close>. Reading \<open>strides[d]\<close> past the end of the strides is
  \<open>OutOfBounds\<close>; the pointer is shifted by \<open>strides[d] * from[d]\<close> for every dimension,
  in \<open>size_t\<close> arithmetic: the shifts wrap around at \<open>2 ^ 64\<close>, and so does their sum.
\<close>

definition view_tensor :: "itensor \<Rightarrow> nat list \<Rightarrow> nat list \<Rightarrow> itensor" where
  "view_tensor src from to =
     \<lparr>buffer = buffer src,
      byte_offset =
        (byte_offset src + (\<Sum>d\<leftarrow>[0..<length from]. strides src ! d * from ! d)) mod 2 ^ 64,
      elem = elem src,
      dims = map (\<lambda>d. size_sub (to ! d) (from ! d)) [0..<length from],
      strides = strides src\<rparr>"

definition view_ft :: "itensor \<Rightarrow> nat list \<Rightarrow> nat list \<Rightarrow> error + itensor" where
  "view_ft src from to =
     (if length from \<noteq> length to then Inl AssertFailed
      else if elem src = u4 \<or> elem src = i4 then Inl AssertFailed
      else if length (strides src) < length from then Inl OutOfBounds
      else Inr (view_tensor src from to))"

text \<open>
  \<open>util::view(src, dim, offset, len)\<close>. \<open>view_start[dim] = offset\<close> writes outside the
  vector when \<open>dim\<close> is not a dimension of \<open>src\<close>. \<open>view_of\<close> is the tensor it returns when
  it returns one.
\<close>

definition view_of :: "itensor \<Rightarrow> nat \<Rightarrow> nat \<Rightarrow> nat \<Rightarrow> itensor" where
  "view_of src dim offset len =
     view_tensor src ((replicate (length (dims src)) 0)[dim := offset])
                     ((dims src)[dim := size_add offset len])"

definition view :: "itensor \<Rightarrow> nat \<Rightarrow> nat \<Rightarrow> nat \<Rightarrow> error + itensor" where
  "view src dim offset len =
     (if dim < length (dims src)
      then view_ft src ((replicate (length (dims src)) 0)[dim := offset])
                       ((dims src)[dim := size_add offset len])
      else Inl OutOfBounds)"

subsection \<open>Subrequests and what the request asks of its collaborators\<close>

text \<open>
  Every call the request makes on a collaborator is recorded, in order: the calls on a
  subrequest (by the subrequest's identity), the tensor kernels, and the warnings.
\<close>

datatype event =
    SetTensor nat io nat itensor
  | Infer nat
  | StartAsync nat
  | Wait nat
  | Cancel nat
  | SetCallback nat
  | CopyTo itensor itensor
  | Unpack itensor itensor
  | Unpack1 itensor itensor itensor
  | Unpack2 itensor itensor itensor itensor
  | Gather itensor itensor itensor
  | DumpInputs nat
  | DumpOutputs nat
  | Warn string

text \<open>
  A subrequest handle (\<open>RqPtr\<close>, when not null): its identity and the tensor it holds at
  each input and output port of its compiled model, in the order of \<open>inputs()\<close> and
  \<open>outputs()\<close>.
\<close>

record subrequest =
  rq_id :: nat
  rq_in :: "itensor list"
  rq_out :: "itensor list"

record port =
  port_type :: element_type
  port_shape :: "nat list"

record compiled =
  inputs :: "port list"
  outputs :: "port list"

record spatial_param =
  param_idx :: nat
  param_dim :: nat

record spatial =
  params :: "spatial_param list"
  out_dim :: nat
  spatial_range :: nat
  nway :: nat
  nway_iters :: nat
  tail_size :: nat

record host_gather =
  dst_idx :: int
  src_idx :: int
  idx_idx :: int

text \<open>\<open>CompiledModel::CompiledModelDesc\<close>; \<open>device_it\<close> is a position in the device list.\<close>

record desc =
  compiled_model :: "compiled option"
  replaced_by :: "nat option"
  device_it :: nat
  param_base :: nat
  closure :: "itensor list"
  update_required :: "bool list"
  scales :: "itensor option list"
  zerops :: "itensor option list"
  host_gather :: host_gather
  spatial :: "spatial option"

record funcall_pipe =
  subrequest :: "subrequest option"
  next_call :: "nat option"

record spatial_io =
  sio_inputs :: "itensor option list"
  input_tails :: "itensor option list"
  sio_outputs :: "itensor option list"
  output_tails :: "itensor option list"

record global_io =
  global_params :: "(nat \<times> nat) list"
  global_results :: "(nat \<times> nat) list"

text \<open>
  The request (\<open>JustInferRequest\<close> with the members of its base class it uses) and the
  compiled model it belongs to. \<open>submodels_input_to_prev_output\<close>, \<open>funcall_result\<close> and the
  two maps of \<open>global_io\<close> are \<open>std::map\<close>s, kept as the lists of their entries in key
  order and read with \<open>map_of\<close>.
  \<open>now_idx\<close> is the base class's member of that name. Four fields stand for the
  collaborators: \<open>copy_devices\<close> are the devices whose subrequests cannot retain the
  caller's memory, \<open>uncompilable\<close> the pairs of a subgraph and a device for which
  compilation fails, \<open>next_rq_id\<close> the identity of the next subrequest that is created,
  and \<open>infer_outcomes\<close> says which of the coming executions of a subrequest throw
  (\<open>False\<close>); when it is used up every execution succeeds. \<open>next_prepared\<close> and \<open>failover\<close>
  are the local variable and the out-parameter of \<open>run_subrequest_for_success\<close>, which the
  callbacks it passes down write to. \<open>events\<close> is the record of the calls.
\<close>

record state =
  compiled_submodels :: "desc list"
  dev_list :: "string list"
  submodels_input_to_prev_output :: "((nat \<times> nat) \<times> (nat \<times> nat)) list"
  use_function_pipelining :: bool
  subrequests :: "subrequest option list"
  subrequest_devices :: "string list"
  funcall_pipeline :: "funcall_pipe list"
  funcall_heads :: "nat list"
  funcall_result :: "((nat \<times> nat) \<times> itensor) list"
  spatial_io :: "spatial_io list"
  subrequests_gio :: "global_io list"
  input_tensors :: "itensor list"
  output_tensors :: "itensor list"
  now_idx :: "nat option"
  copy_devices :: "string list"
  uncompilable :: "(nat \<times> string) list"
  next_rq_id :: nat
  infer_outcomes :: "bool list"
  next_prepared :: bool
  failover :: bool
  events :: "event list"

type_synonym result = "error \<times> state + state"

definition throw :: "error \<Rightarrow> state \<Rightarrow> error \<times> state + 'a" where
  "throw e s = Inl (e, s)"

definition emit :: "event \<Rightarrow> state \<Rightarrow> state" where
  "emit ev s = s\<lparr>events := events s @ [ev]\<rparr>"

text \<open>Sequencing: the second step runs when the first did not throw.\<close>

definition and_then :: "'e + 'a \<Rightarrow> ('a \<Rightarrow> 'e + 'b) \<Rightarrow> 'e + 'b" where
  "and_then m f = (case m of Inl e \<Rightarrow> Inl e | Inr x \<Rightarrow> f x)"

text \<open>
  \<open>request->get_tensor(port)\<close> and \<open>request->set_tensor(port, tensor)\<close> for the port at
  position \<open>p\<close>; a port the request does not have is an exception of the subrequest.
\<close>

definition get_tensor :: "subrequest \<Rightarrow> io \<Rightarrow> nat \<Rightarrow> error + itensor" where
  "get_tensor rq d p =
     (case d of
        In \<Rightarrow> if p < length (rq_in rq) then Inr (rq_in rq ! p) else Inl OutOfRange
      | Out \<Rightarrow> if p < length (rq_out rq) then Inr (rq_out rq ! p) else Inl OutOfRange)"

definition set_tensor :: "subrequest \<Rightarrow> io \<Rightarrow> nat \<Rightarrow> itensor \<Rightarrow> error + subrequest" where
  "set_tensor rq d p t =
     (case d of
        In \<Rightarrow> if p < length (rq_in rq) then Inr (rq\<lparr>rq_in := (rq_in rq)[p := t]\<rparr>)
              else Inl OutOfRange
      | Out \<Rightarrow> if p < length (rq_out rq) then Inr (rq\<lparr>rq_out := (rq_out rq)[p := t]\<rparr>)
               else Inl OutOfRange)"

subsection \<open>Handles on the request's subrequests\<close>

text \<open>
  An \<open>RqPtr\<close> the code works with is a copy of one of the request's own handles:
  \<open>m_subrequests[i]\<close> (the primary of subgraph \<open>i\<close>) or
  \<open>m_funcall_pipeline[i].subrequest\<close> (the reserve). Indexing a vector out of range is
  \<open>OutOfBounds\<close>, using a null handle is \<open>NullDeref\<close>.
\<close>

datatype rq_ref = Primary nat | Reserve nat

definition rq_slot :: "state \<Rightarrow> rq_ref \<Rightarrow> error + subrequest option" where
  "rq_slot s r =
     (case r of
        Primary i \<Rightarrow>
          if i < length (subrequests s) then Inr (subrequests s ! i) else Inl OutOfBounds
      | Reserve i \<Rightarrow>
          if i < length (funcall_pipeline s) then Inr (subrequest (funcall_pipeline s ! i))
          else Inl OutOfBounds)"

definition rq_at :: "state \<Rightarrow> rq_ref \<Rightarrow> error + subrequest" where
  "rq_at s r =
     (case rq_slot s r of
        Inl e \<Rightarrow> Inl e
      | Inr None \<Rightarrow> Inl NullDeref
      | Inr (Some rq) \<Rightarrow> Inr rq)"

definition rq_put :: "rq_ref \<Rightarrow> subrequest option \<Rightarrow> state \<Rightarrow> state" where
  "rq_put r v s =
     (case r of
        Primary i \<Rightarrow> s\<lparr>subrequests := (subrequests s)[i := v]\<rparr>
      | Reserve i \<Rightarrow>
          s\<lparr>funcall_pipeline :=
              (funcall_pipeline s)[i := (funcall_pipeline s ! i)\<lparr>subrequest := v\<rparr>]\<rparr>)"

text \<open>\<open>r->set_tensor(port, t)\<close> and \<open>r->get_tensor(port)\<close> through a handle.\<close>

definition rq_set_tensor :: "rq_ref \<Rightarrow> io \<Rightarrow> nat \<Rightarrow> itensor \<Rightarrow> state \<Rightarrow> result" where
  "rq_set_tensor r d p t s =
     (case rq_at s r of
        Inl e \<Rightarrow> throw e s
      | Inr rq \<Rightarrow>
          (case set_tensor rq d p t of
             Inl e \<Rightarrow> throw e s
           | Inr rq' \<Rightarrow> Inr (emit (SetTensor (rq_id rq) d p t) (rq_put r (Some rq') s))))"

definition rq_get_tensor :: "state \<Rightarrow> rq_ref \<Rightarrow> io \<Rightarrow> nat \<Rightarrow> error + itensor" where
  "rq_get_tensor s r d p = and_then (rq_at s r) (\<lambda>rq. get_tensor rq d p)"

subsection \<open>connect_subrequests\<close>

definition warn_optimized_out :: event where
  "warn_optimized_out =
     Warn (CHR 0x22 # ''Input'' @ CHR 0x22 #
           '' Request in input_to_prev_output mapping was optimized out'')"

text \<open>
  The body of the loop over \<open>m_submodels_input_to_prev_output\<close>, its branches in the
  order of the source. An entry is \<open>((to, to_port), (from, from_port))\<close>.
\<close>

definition connect_link :: "(nat \<times> nat) \<times> (nat \<times> nat) \<Rightarrow> state \<Rightarrow> result" where
  "connect_link kvp s =
     (let subm_idx_to = fst (fst kvp); port_idx_to = snd (fst kvp);
          subm_idx_from = fst (snd kvp); port_idx_from = snd (snd kvp);
          subm = compiled_submodels s; subreqs = subrequests s
      in
      if \<not> (subm_idx_from < length subm \<and> subm_idx_to < length subm) then throw OutOfBounds s
      else if replaced_by (subm ! subm_idx_from) \<noteq> None \<and>
              replaced_by (subm ! subm_idx_to) \<noteq> None then Inr s
      else if replaced_by (subm ! subm_idx_from) \<noteq> None \<and>
              replaced_by (subm ! subm_idx_to) = None then
        (if \<not> subm_idx_to < length subreqs then throw OutOfBounds s
         else case subreqs ! subm_idx_to of
           None \<Rightarrow> throw NullDeref s
         | Some rq_to \<Rightarrow>
             if \<not> port_idx_to < length (rq_in rq_to) then throw OutOfBounds s
             else (case map_of (funcall_result s) (subm_idx_from, port_idx_from) of
                     None \<Rightarrow> throw OutOfRange s
                   | Some tensor \<Rightarrow> rq_set_tensor (Primary subm_idx_to) In port_idx_to tensor s))
      else if replaced_by (subm ! subm_idx_from) = None \<and>
              replaced_by (subm ! subm_idx_to) \<noteq> None then Inr s
      else if \<not> (subm_idx_from < length subreqs \<and> subm_idx_to < length subreqs)
        then throw OutOfBounds s
      else if subreqs ! subm_idx_from = None \<and> subreqs ! subm_idx_to \<noteq> None
        then throw (FatalOptimizedOut subm_idx_from subm_idx_to) s
      else if subreqs ! subm_idx_to = None
        then Inr (emit warn_optimized_out s)
      else if replaced_by (subm ! subm_idx_from) \<noteq> None then throw AssertFailed s
      else if replaced_by (subm ! subm_idx_to) \<noteq> None then throw AssertFailed s
      else
        (case (subreqs ! subm_idx_from, subreqs ! subm_idx_to) of
           (Some rq_from, Some rq_to) \<Rightarrow>
             if \<not> port_idx_to < length (rq_in rq_to) then throw OutOfBounds s
             else if \<not> port_idx_from < length (rq_out rq_from) then throw OutOfBounds s
             else (case get_tensor rq_from Out port_idx_from of
                     Inl e \<Rightarrow> throw e s
                   | Inr tensor \<Rightarrow> rq_set_tensor (Primary subm_idx_to) In port_idx_to tensor s)
         | _ \<Rightarrow> throw AssertFailed s))"

definition connect_subrequests :: "state \<Rightarrow> result" where
  "connect_subrequests s = for_each (submodels_input_to_prev_output s) connect_link s"

text \<open>The tensor bound at a port of the subrequest in slot \<open>i\<close>, when there is one.\<close>

definition bound_tensor :: "state \<Rightarrow> nat \<Rightarrow> io \<Rightarrow> nat \<Rightarrow> itensor option" where
  "bound_tensor s i d p =
     (if i < length (subrequests s) then
        (case subrequests s ! i of
           None \<Rightarrow> None
         | Some rq \<Rightarrow> (case get_tensor rq d p of Inl e \<Rightarrow> None | Inr t \<Rightarrow> Some t))
      else None)"

text \<open>
  A subgraph is optimized out when it has neither a compiled model nor a function to
  call; its slot in \<open>m_subrequests\<close> stays empty. The slot of a call to another
  subgraph's function body is empty as well.
\<close>

definition optimized_out :: "state \<Rightarrow> nat \<Rightarrow> bool" where
  "optimized_out s i \<longleftrightarrow>
     compiled_model (compiled_submodels s ! i) = None \<and>
     replaced_by (compiled_submodels s ! i) = None"

definition is_funcall :: "state \<Rightarrow> nat \<Rightarrow> bool" where
  "is_funcall s i \<longleftrightarrow> replaced_by (compiled_submodels s ! i) \<noteq> None"

subsection \<open>Helpers of the base class\<close>

text \<open>
  \<open>real(idx)\<close> is \<open>replaced_by.value_or(idx)\<close>, as \<open>get_real_subrequest\<close> computes it.
\<close>

definition real :: "state \<Rightarrow> nat \<Rightarrow> nat" where
  "real s i = (case replaced_by (compiled_submodels s ! i) of None \<Rightarrow> i | Some r \<Rightarrow> r)"

text \<open>
  Modelled from the spec: \<open>next(k)\<close> of the base class, which is not part of the sources
  at hand. The spec gives the successor of \<open>idx\<close> as \<open>(idx+1) mod N\<close> and the first
  subgraph as 0, that is \<open>next(k) = k mod N\<close>.
\<close>

definition next_sub :: "state \<Rightarrow> nat \<Rightarrow> nat" where
  "next_sub s k = k mod length (compiled_submodels s)"

text \<open>
  Modelled from the spec: \<open>needs_copy(idx)\<close> of the base class. The spec makes it a
  property of the device of the subgraph (``for devices where the subrequest cannot
  retain caller memory, globals and closures are deep-copied''); the device is the
  one recorded for the body of \<open>idx\<close>.
\<close>

definition needs_copy :: "state \<Rightarrow> nat \<Rightarrow> bool" where
  "needs_copy s i \<longleftrightarrow>
     real s i < length (subrequest_devices s) \<and>
     subrequest_devices s ! real s i \<in> set (copy_devices s)"

text \<open>
  Modelled from the spec: the weights bank, \<open>get(closure_tensor, device) \<rightarrow> tensor\<close>, a
  tensor tied to the given device: the same type and shape, in the bank's memory.
\<close>

definition bank_get :: "itensor \<Rightarrow> string \<Rightarrow> itensor" where
  "bank_get t dev = t\<lparr>buffer := InBank (buffer t) dev\<rparr>"

text \<open>\<open>*desc.device_it\<close>: dereferencing the end of the device list is undefined.\<close>

definition device_of :: "state \<Rightarrow> nat \<Rightarrow> error + string" where
  "device_of s i =
     (if device_it (compiled_submodels s ! i) < length (dev_list s)
      then Inr (dev_list s ! device_it (compiled_submodels s ! i))
      else Inl OutOfBounds)"

subsection \<open>unpack_closure\<close>

text \<open>
  \<open>func_desc.compiled_model->inputs()[comp_model_desc.param_base + cidx]\<close>: the position
  of the port of closure \<open>cidx\<close> among the inputs of the function body.
\<close>

definition closure_port :: "state \<Rightarrow> nat \<Rightarrow> nat \<Rightarrow> nat \<Rightarrow> error + nat" where
  "closure_port s i real_idx cidx =
     (case compiled_model (compiled_submodels s ! real_idx) of
        None \<Rightarrow> Inl NullDeref
      | Some cm \<Rightarrow>
          let closure_param_id = param_base (compiled_submodels s ! i) + cidx
          in if closure_param_id < length (inputs cm) then Inr closure_param_id
             else Inl OutOfBounds)"

text \<open>
  The first loop: it collects \<open>closure_unpack_required\<close> and \<open>closure_copy_required\<close>
  (the first two components of the loop state) and rebinds the easy cases at once.
\<close>

definition classify_closure ::
  "nat \<Rightarrow> nat \<Rightarrow> rq_ref \<Rightarrow> nat \<Rightarrow> nat list \<times> nat list \<times> state
     \<Rightarrow> error \<times> state + nat list \<times> nat list \<times> state" where
  "classify_closure i real_idx request cidx acc =
     (let closure_unpack_required = fst acc;
          closure_copy_required = fst (snd acc);
          s = snd (snd acc);
          comp_model_desc = compiled_submodels s ! i;
          cl = closure comp_model_desc ! cidx
      in case closure_port s i real_idx cidx of
           Inl e \<Rightarrow> throw e s
         | Inr iport \<Rightarrow>
             (case rq_get_tensor s request In iport of
                Inl e \<Rightarrow> throw e s
              | Inr clparam \<Rightarrow>
                  if elem cl \<noteq> elem clparam
                  then Inr (closure_unpack_required @ [cidx], closure_copy_required, s)
                  else if \<not> cidx < length (update_required comp_model_desc)
                  then throw OutOfBounds s
                  else if update_required comp_model_desc ! cidx then
                    (if needs_copy s i
                     then Inr (closure_unpack_required, closure_copy_required @ [cidx], s)
                     else (case rq_set_tensor request In iport cl s of
                             Inl e \<Rightarrow> Inl e
                           | Inr s' \<Rightarrow>
                               Inr (closure_unpack_required, closure_copy_required, s')))
                  else Inr acc))"

text \<open>
  The body of the \<open>ov::parallel_for\<close> over \<open>closure_copy_required\<close>, run here in the order
  of the indices.
\<close>

definition copy_closure :: "nat \<Rightarrow> nat \<Rightarrow> rq_ref \<Rightarrow> nat \<Rightarrow> state \<Rightarrow> result" where
  "copy_closure i real_idx request cidx s =
     (let cl = closure (compiled_submodels s ! i) ! cidx
      in case closure_port s i real_idx cidx of
           Inl e \<Rightarrow> throw e s
         | Inr iport \<Rightarrow>
             (case rq_get_tensor s request In iport of
                Inl e \<Rightarrow> throw e s
              | Inr clparam \<Rightarrow> Inr (emit (CopyTo cl clparam) s)))"

text \<open>The body of the loop over \<open>closure_unpack_required\<close>.\<close>

definition unpack_one :: "nat \<Rightarrow> nat \<Rightarrow> rq_ref \<Rightarrow> nat \<Rightarrow> state \<Rightarrow> result" where
  "unpack_one i real_idx request cidx s =
     (let comp_model_desc = compiled_submodels s ! i;
          cl = closure comp_model_desc ! cidx
      in case closure_port s i real_idx cidx of
           Inl e \<Rightarrow> throw e s
         | Inr iport \<Rightarrow>
             (case rq_get_tensor s request In iport of
                Inl e \<Rightarrow> throw e s
              | Inr clparam \<Rightarrow>
                  if scales comp_model_desc = [] then Inr (emit (Unpack cl clparam) s)
                  else if \<not> cidx < length (scales comp_model_desc) then throw OutOfBounds s
                  else (case scales comp_model_desc ! cidx of
                          None \<Rightarrow> Inr (emit (Unpack cl clparam) s)
                        | Some sc \<Rightarrow>
                            if \<not> cidx < length (zerops comp_model_desc)
                            then throw OutOfBounds s
                            else (case zerops comp_model_desc ! cidx of
                                    None \<Rightarrow> Inr (emit (Unpack1 cl sc clparam) s)
                                  | Some z \<Rightarrow> Inr (emit (Unpack2 cl z sc clparam) s)))))"

definition unpack_closure :: "nat \<Rightarrow> rq_ref \<Rightarrow> state \<Rightarrow> result" where
  "unpack_closure i request s =
     (if \<not> i < length (compiled_submodels s) then throw OutOfBounds s
      else case replaced_by (compiled_submodels s ! i) of
        None \<Rightarrow> throw AssertFailed s
      | Some real_idx \<Rightarrow>
          if \<not> real_idx < length (compiled_submodels s) then throw OutOfBounds s
          else
            (case for_each [0..<length (closure (compiled_submodels s ! i))]
                    (classify_closure i real_idx request) ([], [], s) of
               Inl e \<Rightarrow> Inl e
             | Inr acc \<Rightarrow>
                 and_then (for_each (fst (snd acc)) (copy_closure i real_idx request) (snd (snd acc)))
                   (for_each (fst acc) (unpack_one i real_idx request))))"

subsection \<open>The constructor's loop over the closures\<close>

text \<open>
  The last loop of the constructor (``Sort out how to handle weights bank and
  unpack''): for every function call with a compiled model, the closures that need no
  update are bound once, to the tensor of the weights bank.
\<close>

definition preset_closure :: "nat \<Rightarrow> nat \<Rightarrow> nat \<Rightarrow> state \<Rightarrow> result" where
  "preset_closure i real_idx cidx s =
     (let comp_model_desc = compiled_submodels s ! i;
          cl = closure comp_model_desc ! cidx
      in case closure_port s i real_idx cidx of
           Inl e \<Rightarrow> throw e s
         | Inr iport \<Rightarrow>
             if \<not> cidx < length (update_required comp_model_desc) then throw OutOfBounds s
             else if \<not> update_required comp_model_desc ! cidx then
               (case device_of s real_idx of
                  Inl e \<Rightarrow> throw e s
                | Inr dev \<Rightarrow> rq_set_tensor (Primary real_idx) In iport (bank_get cl dev) s)
             else Inr s)"

definition preset_closures_of :: "nat \<Rightarrow> state \<Rightarrow> result" where
  "preset_closures_of i s =
     (let comp_model_desc = compiled_submodels s ! i
      in if compiled_model comp_model_desc = None \<or> replaced_by comp_model_desc = None
         then Inr s
         else
           let real_idx = the (replaced_by comp_model_desc)
           in if \<not> real_idx < length (compiled_submodels s) then throw OutOfBounds s
              else for_each [0..<length (closure comp_model_desc)] (preset_closure i real_idx) s)"

definition preset_closures :: "state \<Rightarrow> result" where
  "preset_closures s = for_each [0..<length (compiled_submodels s)] preset_closures_of s"

subsection \<open>The calls forwarded to a subrequest\<close>

definition get_real_subrequest :: "state \<Rightarrow> nat \<Rightarrow> rq_ref" where
  "get_real_subrequest s i = Primary (real s i)"

definition start_subrequest :: "nat \<Rightarrow> state \<Rightarrow> result" where
  "start_subrequest i s =
     (case rq_at s (Primary i) of
        Inl e \<Rightarrow> throw e s
      | Inr rq \<Rightarrow> Inr (emit (StartAsync (rq_id rq)) s))"

definition subscribe_subrequest :: "nat \<Rightarrow> state \<Rightarrow> result" where
  "subscribe_subrequest i s =
     (if \<not> i < length (compiled_submodels s) then throw OutOfBounds s
      else case rq_at s (get_real_subrequest s i) of
        Inl e \<Rightarrow> throw e s
      | Inr rq \<Rightarrow> Inr (emit (SetCallback (rq_id rq)) s))"

definition cancel_subrequest :: "nat \<Rightarrow> state \<Rightarrow> result" where
  "cancel_subrequest i s =
     (case rq_at s (Primary i) of
        Inl e \<Rightarrow> throw e s
      | Inr rq \<Rightarrow> Inr (emit (Cancel (rq_id rq)) s))"

subsection \<open>The rules of the closure unpacker, in the words of the specification\<close>

datatype closure_action = UseUnpack2 | UseUnpack1 | UseUnpack | CopyInto | Rebind | Skip

definition has_tensor :: "itensor option list \<Rightarrow> nat \<Rightarrow> bool" where
  "has_tensor ts c \<longleftrightarrow> c < length ts \<and> ts ! c \<noteq> None"

text \<open>
  \<open>closure_rule d copy t c\<close>: what is done for closure \<open>c\<close> of the descriptor \<open>d\<close> when
  the request's tensor at the closure's port has element type \<open>t\<close> and \<open>copy\<close> is the
  answer of \<open>needs_copy\<close>.
\<close>

definition closure_rule :: "desc \<Rightarrow> bool \<Rightarrow> element_type \<Rightarrow> nat \<Rightarrow> closure_action" where
  "closure_rule d copy t c =
     (if elem (closure d ! c) \<noteq> t then
        (if has_tensor (scales d) c \<and> has_tensor (zerops d) c then UseUnpack2
         else if has_tensor (scales d) c then UseUnpack1
         else UseUnpack)
      else if update_required d ! c \<and> copy then CopyInto
      else if update_required d ! c then Rebind
      else Skip)"

definition is_unpack :: "closure_action \<Rightarrow> bool" where
  "is_unpack a \<longleftrightarrow> a = UseUnpack2 \<or> a = UseUnpack1 \<or> a = UseUnpack"

text \<open>The calls the rules ask for; \<open>ts\<close> are the tensors at the request's input ports.\<close>

definition rebind_event :: "desc \<Rightarrow> nat \<Rightarrow> nat \<Rightarrow> event" where
  "rebind_event d rid c = SetTensor rid In (param_base d + c) (closure d ! c)"

definition copy_event :: "desc \<Rightarrow> itensor list \<Rightarrow> nat \<Rightarrow> event" where
  "copy_event d ts c = CopyTo (closure d ! c) (ts ! (param_base d + c))"

definition unpack_event :: "desc \<Rightarrow> itensor list \<Rightarrow> closure_action \<Rightarrow> nat \<Rightarrow> event" where
  "unpack_event d ts a c =
     (case a of
        UseUnpack2 \<Rightarrow>
          Unpack2 (closure d ! c) (the (zerops d ! c)) (the (scales d ! c)) (ts ! (param_base d + c))
      | UseUnpack1 \<Rightarrow> Unpack1 (closure d ! c) (the (scales d ! c)) (ts ! (param_base d + c))
      | _ \<Rightarrow> Unpack (closure d ! c) (ts ! (param_base d + c)))"

text \<open>The input tensors of the request after the rebinds of the closures \<open>cs\<close>.\<close>

primrec rebound :: "desc \<Rightarrow> (nat \<Rightarrow> closure_action) \<Rightarrow> nat list \<Rightarrow> itensor list \<Rightarrow> itensor list" where
  "rebound d rule [] ts = ts"
| "rebound d rule (c # cs) ts =
     rebound d rule cs (if rule c = Rebind then ts[param_base d + c := closure d ! c] else ts)"

definition emits :: "event list \<Rightarrow> state \<Rightarrow> state" where
  "emits evs s = s\<lparr>events := events s @ evs\<rparr>"

text \<open>
  What \<open>unpack_closure\<close> needs to find: the call \<open>i\<close> and its function body in the table,
  a compiled body and a request with a port for every closure, and the companion
  vectors as long as the closure (the scales may be absent altogether).
\<close>

definition closure_wf :: "state \<Rightarrow> nat \<Rightarrow> nat \<Rightarrow> rq_ref \<Rightarrow> subrequest \<Rightarrow> bool" where
  "closure_wf s i real_idx request rq \<longleftrightarrow>
     i < length (compiled_submodels s) \<and>
     replaced_by (compiled_submodels s ! i) = Some real_idx \<and>
     real_idx < length (compiled_submodels s) \<and>
     rq_at s request = Inr rq \<and>
     (\<exists>cm. compiled_model (compiled_submodels s ! real_idx) = Some cm \<and>
           param_base (compiled_submodels s ! i) + length (closure (compiled_submodels s ! i))
             \<le> length (inputs cm)) \<and>
     param_base (compiled_submodels s ! i) + length (closure (compiled_submodels s ! i))
       \<le> length (rq_in rq) \<and>
     length (update_required (compiled_submodels s ! i)) = length (closure (compiled_submodels s ! i)) \<and>
     (scales (compiled_submodels s ! i) = [] \<or>
      length (scales (compiled_submodels s ! i)) = length (closure (compiled_submodels s ! i)) \<and>
      length (zerops (compiled_submodels s ! i)) = length (closure (compiled_submodels s ! i)))"

text \<open>
  The calls of one \<open>unpack_closure\<close> and the request it leaves, by the rules: the rebinds
  (done while classifying), then the copies, then the unpacks, each group in the order
  of the closure indices.
\<close>

definition closure_calls :: "desc \<Rightarrow> bool \<Rightarrow> subrequest \<Rightarrow> event list" where
  "closure_calls d copy rq =
     (let cs = [0..<length (closure d)];
          rule = (\<lambda>c. closure_rule d copy (elem (rq_in rq ! (param_base d + c))) c)
      in map (rebind_event d (rq_id rq)) (filter (\<lambda>c. rule c = Rebind) cs) @
         map (copy_event d (rq_in rq)) (filter (\<lambda>c. rule c = CopyInto) cs) @
         map (\<lambda>c. unpack_event d (rq_in rq) (rule c) c) (filter (\<lambda>c. is_unpack (rule c)) cs))"

definition closure_bindings :: "desc \<Rightarrow> bool \<Rightarrow> subrequest \<Rightarrow> subrequest" where
  "closure_bindings d copy rq =
     rq\<lparr>rq_in :=
          rebound d (\<lambda>c. closure_rule d copy (elem (rq_in rq ! (param_base d + c))) c)
            [0..<length (closure d)] (rq_in rq)\<rparr>"

text \<open>The kernel the code picks for a closure it unpacks.\<close>

definition kernel_of :: "desc \<Rightarrow> nat \<Rightarrow> closure_action" where
  "kernel_of d c =
     (if has_tensor (scales d) c \<and> has_tensor (zerops d) c then UseUnpack2
      else if has_tensor (scales d) c then UseUnpack1 else UseUnpack)"

text \<open>
  The calls of the constructor's loop for one function call, on a body whose device is
  \<open>dev\<close>, and the request it leaves: one \<open>set_tensor\<close> for every closure that needs no
  update, to the tensor of the weights bank.
\<close>

definition preset_calls :: "desc \<Rightarrow> string \<Rightarrow> subrequest \<Rightarrow> event list" where
  "preset_calls d dev rq =
     map (\<lambda>c. SetTensor (rq_id rq) In (param_base d + c) (bank_get (closure d ! c) dev))
       (filter (\<lambda>c. \<not> update_required d ! c) [0..<length (closure d)])"

primrec prebound :: "desc \<Rightarrow> string \<Rightarrow> nat list \<Rightarrow> itensor list \<Rightarrow> itensor list" where
  "prebound d dev [] ts = ts"
| "prebound d dev (c # cs) ts =
     prebound d dev cs
       (if \<not> update_required d ! c then ts[param_base d + c := bank_get (closure d ! c) dev]
        else ts)"

definition preset_bindings :: "desc \<Rightarrow> string \<Rightarrow> subrequest \<Rightarrow> subrequest" where
  "preset_bindings d dev rq = rq\<lparr>rq_in := prebound d dev [0..<length (closure d)] (rq_in rq)\<rparr>"

text \<open>An event that binds the input port \<open>p\<close> of the subrequest \<open>rid\<close>.\<close>

definition sets_port :: "nat \<Rightarrow> nat \<Rightarrow> event \<Rightarrow> bool" where
  "sets_port rid p ev = (case ev of SetTensor r d q t \<Rightarrow> r = rid \<and> d = In \<and> q = p | _ \<Rightarrow> False)"

subsection \<open>Running a subrequest\<close>

text \<open>
  \<open>r->infer()\<close>, \<open>r->start_async()\<close> and \<open>r->wait()\<close>. An execution throws when the next
  of the \<open>infer_outcomes\<close> says so; the synchronous call and the wait of an asynchronous
  one are where it shows.
\<close>

definition take_outcome :: "state \<Rightarrow> result" where
  "take_outcome s =
     (case infer_outcomes s of
        [] \<Rightarrow> Inr s
      | ok # rest \<Rightarrow>
          if ok then Inr (s\<lparr>infer_outcomes := rest\<rparr>)
          else throw InferFailed (s\<lparr>infer_outcomes := rest\<rparr>))"

definition rq_infer :: "rq_ref \<Rightarrow> state \<Rightarrow> result" where
  "rq_infer r s =
     (case rq_at s r of
        Inl e \<Rightarrow> throw e s
      | Inr rq \<Rightarrow> take_outcome (emit (Infer (rq_id rq)) s))"

definition rq_start_async :: "rq_ref \<Rightarrow> state \<Rightarrow> result" where
  "rq_start_async r s =
     (case rq_at s r of
        Inl e \<Rightarrow> throw e s
      | Inr rq \<Rightarrow> Inr (emit (StartAsync (rq_id rq)) s))"

definition rq_wait :: "rq_ref \<Rightarrow> state \<Rightarrow> result" where
  "rq_wait r s =
     (case rq_at s r of
        Inl e \<Rightarrow> throw e s
      | Inr rq \<Rightarrow> take_outcome (emit (Wait (rq_id rq)) s))"

subsection \<open>unsafe_infer\<close>

text \<open>
  \<open>m_spatial_io[real_idx].field.at(k)\<close>, and the tensor behind it: \<open>at\<close> throws
  \<open>std::out_of_range\<close>, a slot that was never filled is a null handle.
\<close>

definition sio_tensor ::
  "state \<Rightarrow> nat \<Rightarrow> (spatial_io \<Rightarrow> itensor option list) \<Rightarrow> nat \<Rightarrow> error + itensor" where
  "sio_tensor s real_idx field k =
     (if \<not> real_idx < length (spatial_io s) then Inl OutOfBounds
      else if \<not> k < length (field (spatial_io s ! real_idx)) then Inl OutOfRange
      else (case field (spatial_io s ! real_idx) ! k of
              None \<Rightarrow> Inl NullDeref
            | Some t \<Rightarrow> Inr t))"

text \<open>
  The preparation of \<open>full_in_shapes\<close>, a vector of \<open>param_base\<close> shapes that is filled
  for the spatial parameters and not used afterwards.
\<close>

definition check_full_in_shape :: "nat \<Rightarrow> desc \<Rightarrow> spatial_param \<Rightarrow> state \<Rightarrow> result" where
  "check_full_in_shape real_idx d param s =
     (case sio_tensor s real_idx sio_inputs (param_idx param) of
        Inl e \<Rightarrow> throw e s
      | Inr t \<Rightarrow> if param_idx param < param_base d then Inr s else throw OutOfBounds s)"

text \<open>One full iteration at \<open>offset\<close>: the views of the inputs, of the outputs, the run.\<close>

definition spatial_bind_input ::
  "nat \<Rightarrow> compiled \<Rightarrow> nat \<Rightarrow> nat \<Rightarrow> spatial_param \<Rightarrow> state \<Rightarrow> result" where
  "spatial_bind_input real_idx cm offset len param s =
     (if \<not> param_idx param < length (inputs cm) then throw OutOfBounds s
      else case sio_tensor s real_idx sio_inputs (param_idx param) of
        Inl e \<Rightarrow> throw e s
      | Inr t \<Rightarrow>
          (case view t (param_dim param) offset len of
             Inl e \<Rightarrow> throw e s
           | Inr v \<Rightarrow> rq_set_tensor (Primary real_idx) In (param_idx param) v s))"

definition spatial_bind_output :: "nat \<Rightarrow> nat \<Rightarrow> nat \<Rightarrow> nat \<Rightarrow> nat \<Rightarrow> state \<Rightarrow> result" where
  "spatial_bind_output real_idx odim offset len out_idx s =
     (case sio_tensor s real_idx sio_outputs out_idx of
        Inl e \<Rightarrow> throw e s
      | Inr t \<Rightarrow>
          (case view t odim offset len of
             Inl e \<Rightarrow> throw e s
           | Inr v \<Rightarrow> rq_set_tensor (Primary real_idx) Out out_idx v s))"

text \<open>
  The loop state of the iterations is the offset and the request; \<open>offset += nway\<close> is
  an addition of \<open>size_t\<close>.
\<close>

definition spatial_step ::
  "nat \<Rightarrow> compiled \<Rightarrow> spatial \<Rightarrow> nat \<Rightarrow> nat \<times> state \<Rightarrow> error \<times> state + nat \<times> state" where
  "spatial_step real_idx cm sp i st =
     (case and_then
             (and_then
                (for_each (params sp)
                   (spatial_bind_input real_idx cm (fst st) (nway sp)) (snd st))
                (for_each [0..<length (outputs cm)]
                   (spatial_bind_output real_idx (out_dim sp) (fst st) (nway sp))))
             (rq_infer (Primary real_idx)) of
        Inl e \<Rightarrow> Inl e
      | Inr s' \<Rightarrow> Inr (size_add (fst st) (nway sp), s'))"

text \<open>The tail: copy in, bind the tail buffers, run, copy out.\<close>

definition tail_input :: "nat \<Rightarrow> compiled \<Rightarrow> spatial \<Rightarrow> nat \<Rightarrow> spatial_param \<Rightarrow> state \<Rightarrow> result" where
  "tail_input real_idx cm sp offset param s =
     (case sio_tensor s real_idx sio_inputs (param_idx param) of
        Inl e \<Rightarrow> throw e s
      | Inr t \<Rightarrow>
          (case view t (param_dim param) offset (tail_size sp) of
             Inl e \<Rightarrow> throw e s
           | Inr in_view \<Rightarrow>
               if \<not> param_idx param < length (inputs cm) then throw OutOfBounds s
               else (case sio_tensor s real_idx input_tails (param_idx param) of
                       Inl e \<Rightarrow> throw e s
                     | Inr tt \<Rightarrow>
                         (case view tt (param_dim param) 0 (tail_size sp) of
                            Inl e \<Rightarrow> throw e s
                          | Inr out_view \<Rightarrow>
                              rq_set_tensor (Primary real_idx) In (param_idx param) tt
                                (emit (CopyTo in_view out_view) s)))))"

definition tail_bind_output :: "nat \<Rightarrow> nat \<Rightarrow> state \<Rightarrow> result" where
  "tail_bind_output real_idx out_idx s =
     (case sio_tensor s real_idx output_tails out_idx of
        Inl e \<Rightarrow> throw e s
      | Inr tt \<Rightarrow> rq_set_tensor (Primary real_idx) Out out_idx tt s)"

definition tail_copy_output :: "nat \<Rightarrow> spatial \<Rightarrow> nat \<Rightarrow> nat \<Rightarrow> state \<Rightarrow> result" where
  "tail_copy_output real_idx sp offset out_idx s =
     (case sio_tensor s real_idx output_tails out_idx of
        Inl e \<Rightarrow> throw e s
      | Inr tt \<Rightarrow>
          (case view tt (out_dim sp) 0 (tail_size sp) of
             Inl e \<Rightarrow> throw e s
           | Inr in_view \<Rightarrow>
               (case sio_tensor s real_idx sio_outputs out_idx of
                  Inl e \<Rightarrow> throw e s
                | Inr t \<Rightarrow>
                    (case view t (out_dim sp) offset (tail_size sp) of
                       Inl e \<Rightarrow> throw e s
                     | Inr out_view \<Rightarrow> Inr (emit (CopyTo in_view out_view) s)))))"

definition spatial_tail :: "nat \<Rightarrow> compiled \<Rightarrow> spatial \<Rightarrow> nat \<Rightarrow> state \<Rightarrow> result" where
  "spatial_tail real_idx cm sp offset s =
     and_then
       (and_then
          (and_then
             (for_each (params sp) (tail_input real_idx cm sp offset) s)
             (for_each [0..<length (outputs cm)] (tail_bind_output real_idx)))
          (rq_infer (Primary real_idx)))
       (for_each [0..<length (outputs cm)] (tail_copy_output real_idx sp offset))"

definition unsafe_infer :: "nat \<Rightarrow> state \<Rightarrow> result" where
  "unsafe_infer real_idx s =
     (if \<not> (real_idx < length (compiled_submodels s) \<and> real_idx < length (subrequests s))
      then throw OutOfBounds s
      else
        let comp_model_desc = compiled_submodels s ! real_idx
        in case spatial comp_model_desc of
             None \<Rightarrow> rq_infer (Primary real_idx) s
           | Some sp \<Rightarrow>
               (case compiled_model comp_model_desc of
                  None \<Rightarrow> throw NullDeref s
                | Some cm \<Rightarrow>
                    (case for_each (params sp) (check_full_in_shape real_idx comp_model_desc) s of
                       Inl e \<Rightarrow> Inl e
                     | Inr s0 \<Rightarrow>
                         (case for_each [0..<nway_iters sp] (spatial_step real_idx cm sp) (0, s0) of
                            Inl e \<Rightarrow> Inl e
                          | Inr st \<Rightarrow>
                              if tail_size sp \<noteq> 0
                              then spatial_tail real_idx cm sp (fst st) (snd st)
                              else Inr (snd st)))))"

subsection \<open>The spatial loop, in the words of the specification\<close>

text \<open>
  The calls of iteration \<open>k\<close>, of the tail, and of one \<open>unsafe_infer\<close> of a spatial body,
  on the subrequest \<open>rid\<close> with the full tensors \<open>io\<close> and \<open>n\<close> outputs.
\<close>

definition iteration_calls :: "nat \<Rightarrow> spatial \<Rightarrow> spatial_io \<Rightarrow> nat \<Rightarrow> nat \<Rightarrow> event list" where
  "iteration_calls rid sp io n k =
     map (\<lambda>p. SetTensor rid In (param_idx p)
                 (view_of (the (sio_inputs io ! param_idx p)) (param_dim p) (k * nway sp) (nway sp)))
       (params sp) @
     map (\<lambda>out. SetTensor rid Out out
                 (view_of (the (sio_outputs io ! out)) (out_dim sp) (k * nway sp) (nway sp)))
       [0..<n] @
     [Infer rid]"

definition tail_calls :: "nat \<Rightarrow> spatial \<Rightarrow> spatial_io \<Rightarrow> nat \<Rightarrow> event list" where
  "tail_calls rid sp io n =
     concat (map (\<lambda>p.
       [CopyTo (view_of (the (sio_inputs io ! param_idx p)) (param_dim p)
                  (nway_iters sp * nway sp) (tail_size sp))
               (view_of (the (input_tails io ! param_idx p)) (param_dim p) 0 (tail_size sp)),
        SetTensor rid In (param_idx p) (the (input_tails io ! param_idx p))]) (params sp)) @
     map (\<lambda>out. SetTensor rid Out out (the (output_tails io ! out))) [0..<n] @
     [Infer rid] @
     map (\<lambda>out. CopyTo (view_of (the (output_tails io ! out)) (out_dim sp) 0 (tail_size sp))
                       (view_of (the (sio_outputs io ! out)) (out_dim sp)
                          (nway_iters sp * nway sp) (tail_size sp))) [0..<n]"

definition spatial_calls :: "nat \<Rightarrow> spatial \<Rightarrow> spatial_io \<Rightarrow> nat \<Rightarrow> event list" where
  "spatial_calls rid sp io n =
     concat (map (iteration_calls rid sp io n) [0..<nway_iters sp]) @
     (if tail_size sp > 0 then tail_calls rid sp io n else [])"

definition is_infer :: "event \<Rightarrow> bool" where
  "is_infer ev = (case ev of Infer r \<Rightarrow> True | _ \<Rightarrow> False)"

text \<open>
  A tensor of which \<open>view\<close> along \<open>dim\<close> succeeds, and a list of full tensors that has
  such a tensor at \<open>k\<close>.
\<close>

definition viewable :: "itensor \<Rightarrow> nat \<Rightarrow> bool" where
  "viewable t dim \<longleftrightarrow>
     dim < length (dims t) \<and> elem t \<noteq> u4 \<and> elem t \<noteq> i4 \<and> length (dims t) \<le> length (strides t)"

definition has_viewable :: "itensor option list \<Rightarrow> nat \<Rightarrow> nat \<Rightarrow> bool" where
  "has_viewable ts k dim \<longleftrightarrow> k < length ts \<and> (\<exists>t. ts ! k = Some t \<and> viewable t dim)"

text \<open>
  What a spatial \<open>unsafe_infer\<close> of the body \<open>real_idx\<close> needs to find: the body with its
  compiled model \<open>cm\<close> and the full tensors \<open>io\<close> of every spatial parameter and of every
  output, and the tail buffers when there is a tail, and a range whose offsets do not
  wrap around (\<open>spatial_static\<close>); the body's
  subrequest \<open>rid\<close> with the ports of \<open>cm\<close> (\<open>spatial_rq\<close>); and no execution that is
  going to throw (\<open>outcomes_ok\<close>).
\<close>

definition spatial_static :: "state \<Rightarrow> nat \<Rightarrow> compiled \<Rightarrow> spatial \<Rightarrow> spatial_io \<Rightarrow> bool" where
  "spatial_static s real_idx cm sp io \<longleftrightarrow>
     real_idx < length (compiled_submodels s) \<and>
     spatial (compiled_submodels s ! real_idx) = Some sp \<and>
     compiled_model (compiled_submodels s ! real_idx) = Some cm \<and>
     real_idx < length (spatial_io s) \<and> spatial_io s ! real_idx = io \<and>
     nway_iters sp * nway sp < 2 ^ 64 \<and>
     (\<forall>p \<in> set (params sp).
        param_idx p < param_base (compiled_submodels s ! real_idx) \<and>
        param_idx p < length (inputs cm) \<and>
        has_viewable (sio_inputs io) (param_idx p) (param_dim p) \<and>
        (tail_size sp > 0 \<longrightarrow> has_viewable (input_tails io) (param_idx p) (param_dim p))) \<and>
     (\<forall>out < length (outputs cm).
        has_viewable (sio_outputs io) out (out_dim sp) \<and>
        (tail_size sp > 0 \<longrightarrow> has_viewable (output_tails io) out (out_dim sp)))"

definition spatial_rq :: "state \<Rightarrow> nat \<Rightarrow> nat \<Rightarrow> compiled \<Rightarrow> bool" where
  "spatial_rq s real_idx rid cm \<longleftrightarrow>
     real_idx < length (subrequests s) \<and>
     (\<exists>rq. subrequests s ! real_idx = Some rq \<and> rq_id rq = rid \<and>
           length (inputs cm) \<le> length (rq_in rq) \<and> length (outputs cm) \<le> length (rq_out rq))"

definition outcomes_ok :: "state \<Rightarrow> bool" where
  "outcomes_ok s \<longleftrightarrow> (\<forall>ok \<in> set (infer_outcomes s). ok)"

definition spatial_wf :: "state \<Rightarrow> nat \<Rightarrow> nat \<Rightarrow> compiled \<Rightarrow> spatial \<Rightarrow> spatial_io \<Rightarrow> bool" where
  "spatial_wf s real_idx rid cm sp io \<longleftrightarrow>
     spatial_static s real_idx cm sp io \<and> spatial_rq s real_idx rid cm \<and> outcomes_ok s"

subsection \<open>The collaborators of the failover loop\<close>

text \<open>
  Modelled from the spec: the subrequest factory \<open>create_infer_requests(id, count)\<close> of
  the base class, ``\<open>create(sub_idx, count) \<rightarrow> [handle\<dots>]\<close>''. The handles are new
  subrequests of the compiled model the subgraph runs, the one of its function body; a
  new subrequest has a tensor of its own at every port, of the port's type and shape.
\<close>

definition new_subrequest :: "compiled \<Rightarrow> nat \<Rightarrow> subrequest" where
  "new_subrequest cm n =
     \<lparr>rq_id = n,
      rq_in = map (\<lambda>p. dense_tensor (OfRequest n In p) (port_type (inputs cm ! p))
                         (port_shape (inputs cm ! p))) [0..<length (inputs cm)],
      rq_out = map (\<lambda>p. dense_tensor (OfRequest n Out p) (port_type (outputs cm ! p))
                          (port_shape (outputs cm ! p))) [0..<length (outputs cm)]\<rparr>"

definition create_infer_requests ::
  "nat \<Rightarrow> nat \<Rightarrow> state \<Rightarrow> error \<times> state + subrequest list \<times> state" where
  "create_infer_requests i count s =
     (if \<not> i < length (compiled_submodels s) then throw OutOfBounds s
      else if \<not> real s i < length (compiled_submodels s) then throw OutOfBounds s
      else case compiled_model (compiled_submodels s ! real s i) of
             None \<Rightarrow> throw NullDeref s
           | Some cm \<Rightarrow>
               Inr (map (\<lambda>k. new_subrequest cm (next_rq_id s + k)) [0..<count],
                    s\<lparr>next_rq_id := next_rq_id s + count\<rparr>))"

text \<open>
  Modelled from the spec: \<open>compile_for_success(real_idx)\<close> of the compiled model,
  ``\<open>compile(real_idx) \<rightarrow> bool\<close>, advances through devices until one succeeds''. It starts
  at the device the iterator of the subgraph points to and leaves the iterator at the
  device that succeeded, or at the end of the list.
\<close>

definition compile_for_success :: "nat \<Rightarrow> state \<Rightarrow> bool \<times> state" where
  "compile_for_success real_idx s =
     (let d = compiled_submodels s ! real_idx;
          candidates = filter (\<lambda>j. (real_idx, dev_list s ! j) \<notin> set (uncompilable s))
                         [device_it d..<length (dev_list s)]
      in case candidates of
           [] \<Rightarrow> (False, s\<lparr>compiled_submodels :=
                             (compiled_submodels s)[real_idx := d\<lparr>device_it := length (dev_list s)\<rparr>]\<rparr>)
         | j # rest \<Rightarrow> (True, s\<lparr>compiled_submodels :=
                                  (compiled_submodels s)[real_idx := d\<lparr>device_it := j\<rparr>]\<rparr>))"

text \<open>
  Modelled from the spec: what the failover loop catches. A subrequest's exception, an
  \<open>OPENVINO_THROW\<close> and the exceptions of the standard library are caught; undefined
  behaviour is no exception, and a failed \<open>NPUW_ASSERT\<close> is an ``assert-abort: never
  surfaced as a recoverable error''.
\<close>

definition is_exception :: "error \<Rightarrow> bool" where
  "is_exception e \<longleftrightarrow> e \<noteq> NullDeref \<and> e \<noteq> OutOfBounds \<and> e \<noteq> AssertFailed"

subsection \<open>recreate_subrequests\<close>

definition recreate_subrequests :: "nat \<Rightarrow> state \<Rightarrow> result" where
  "recreate_subrequests idx s =
     (if \<not> idx < length (compiled_submodels s) then throw OutOfBounds s
      else
        let comp_model_desc = compiled_submodels s ! idx;
            real_idx = real s idx
        in case create_infer_requests idx (if use_function_pipelining s then 2 else 1) s of
             Inl e \<Rightarrow> Inl e
           | Inr (new_rqs, s1) \<Rightarrow>
               if \<not> real_idx < length (subrequests s1) then throw OutOfBounds s1
               else
                 and_then
                   (and_then
                      (let s2 = rq_put (Primary real_idx) (Some (new_rqs ! 0)) s1
                       in if replaced_by comp_model_desc \<noteq> None \<and> use_function_pipelining s2
                          then (if \<not> real_idx < length (funcall_pipeline s2)
                                then throw OutOfBounds s2
                                else Inr (rq_put (Reserve real_idx) (Some (new_rqs ! 1)) s2))
                          else Inr s2)
                      connect_subrequests)
                   (\<lambda>s4. case device_of s4 idx of
                            Inl e \<Rightarrow> throw e s4
                          | Inr dev \<Rightarrow>
                              if \<not> idx < length (subrequest_devices s4) then throw OutOfBounds s4
                              else Inr (s4\<lparr>subrequest_devices := (subrequest_devices s4)[idx := dev]\<rparr>)))"

subsection \<open>Binding the global parameters and results\<close>

text \<open>
  \<open>m_port_to_tensor.at(port).tensor\<close> for the global input or output port at position
  \<open>i\<close> is \<open>input_tensors ! i\<close> or \<open>output_tensors ! i\<close>.

  \<open>m_spatial_io[real_idx].inputs.at(k) = t\<close> and the same for the outputs.
\<close>

definition sio_put_input :: "nat \<Rightarrow> nat \<Rightarrow> itensor \<Rightarrow> state \<Rightarrow> result" where
  "sio_put_input real_idx k t s =
     (if \<not> real_idx < length (spatial_io s) then throw OutOfBounds s
      else let io = spatial_io s ! real_idx
           in if \<not> k < length (sio_inputs io) then throw OutOfRange s
              else Inr (s\<lparr>spatial_io :=
                           (spatial_io s)[real_idx := io\<lparr>sio_inputs := (sio_inputs io)[k := Some t]\<rparr>]\<rparr>))"

definition sio_put_output :: "nat \<Rightarrow> nat \<Rightarrow> itensor \<Rightarrow> state \<Rightarrow> result" where
  "sio_put_output real_idx k t s =
     (if \<not> real_idx < length (spatial_io s) then throw OutOfBounds s
      else let io = spatial_io s ! real_idx
           in if \<not> k < length (sio_outputs io) then throw OutOfRange s
              else Inr (s\<lparr>spatial_io :=
                           (spatial_io s)[real_idx := io\<lparr>sio_outputs := (sio_outputs io)[k := Some t]\<rparr>]\<rparr>))"

text \<open>The lambda \<open>subr\<close>: the subrequest the parameters are bound to.\<close>

definition param_subrequest :: "state \<Rightarrow> nat \<Rightarrow> error + rq_ref" where
  "param_subrequest s real_idx =
     (case now_idx s of
        None \<Rightarrow> Inr (Primary real_idx)
      | Some now \<Rightarrow>
          if \<not> now < length (compiled_submodels s) then Inl OutOfBounds
          else if real_idx = real s now \<and> use_function_pipelining s then
            (if \<not> real_idx < length (funcall_pipeline s) then Inl OutOfBounds
             else if subrequest (funcall_pipeline s ! real_idx) = None then Inl AssertFailed
             else Inr (Reserve real_idx))
          else Inr (Primary real_idx))"

definition is_spatial_param :: "desc \<Rightarrow> nat \<Rightarrow> bool" where
  "is_spatial_param proto_comp_model_desc sub_in_idx =
     (case spatial proto_comp_model_desc of
        None \<Rightarrow> False
      | Some sp \<Rightarrow> sub_in_idx \<in> set (map param_idx (params sp)))"

text \<open>
  The loop over \<open>iodesc.global_params\<close>; its state is the \<open>copy_list\<close> and the request.
\<close>

definition bind_global_param ::
  "nat \<Rightarrow> rq_ref \<Rightarrow> bool \<Rightarrow> desc \<Rightarrow> nat \<times> nat \<Rightarrow> (itensor \<times> nat) list \<times> state
     \<Rightarrow> error \<times> state + (itensor \<times> nat) list \<times> state" where
  "bind_global_param real_idx subr do_copy proto_comp_model_desc it acc =
     (let g_idx = fst it; sub_in_idx = snd it; copy_list = fst acc; s = snd acc
      in if \<not> g_idx < length (input_tensors s) then throw OutOfBounds s
         else
           let g_tnsr = input_tensors s ! g_idx
           in case rq_at s subr of
                Inl e \<Rightarrow> throw e s
              | Inr rq \<Rightarrow>
                  if \<not> sub_in_idx < length (rq_in rq) then throw OutOfBounds s
                  else if \<not> is_spatial_param proto_comp_model_desc sub_in_idx then
                    (if do_copy then Inr (copy_list @ [(g_tnsr, sub_in_idx)], s)
                     else (case rq_set_tensor subr In sub_in_idx g_tnsr s of
                             Inl e \<Rightarrow> Inl e
                           | Inr s' \<Rightarrow> Inr (copy_list, s')))
                  else (case sio_put_input real_idx sub_in_idx g_tnsr s of
                          Inl e \<Rightarrow> Inl e
                        | Inr s' \<Rightarrow> Inr (copy_list, s')))"

text \<open>The body of the \<open>ov::parallel_for\<close> over the \<open>copy_list\<close>, run in its order.\<close>

definition copy_global_param :: "rq_ref \<Rightarrow> itensor \<times> nat \<Rightarrow> state \<Rightarrow> result" where
  "copy_global_param subr it s =
     (case rq_get_tensor s subr In (snd it) of
        Inl e \<Rightarrow> throw e s
      | Inr dst \<Rightarrow> Inr (emit (CopyTo (fst it) dst) s))"

text \<open>
  The host-side gather. \<open>dst_idx - param_base\<close> is computed in \<open>size_t\<close>; the vocabulary,
  the lookup tensor and the destination are handed to \<open>util::gather\<close>.
\<close>

definition closure_index :: "int \<Rightarrow> nat \<Rightarrow> nat" where
  "closure_index i base = nat ((i - int base) mod 2 ^ 64)"

definition run_host_gather :: "desc \<Rightarrow> rq_ref \<Rightarrow> state \<Rightarrow> result" where
  "run_host_gather comp_model_desc subr s =
     (if dst_idx (host_gather comp_model_desc) = - 1 then Inr s
      else
        let di = closure_index (dst_idx (host_gather comp_model_desc)) (param_base comp_model_desc);
            si = closure_index (src_idx (host_gather comp_model_desc)) (param_base comp_model_desc);
            li = closure_index (idx_idx (host_gather comp_model_desc)) 0
        in if \<not> (di < length (closure comp_model_desc) \<and> si < length (closure comp_model_desc))
           then throw OutOfBounds s
           else case compiled_model comp_model_desc of
                  None \<Rightarrow> throw NullDeref s
                | Some cm \<Rightarrow>
                    if \<not> li < length (inputs cm) then throw OutOfBounds s
                    else (case rq_get_tensor s subr In li of
                            Inl e \<Rightarrow> throw e s
                          | Inr lookup \<Rightarrow>
                              Inr (emit (Gather (closure comp_model_desc ! si) lookup
                                           (closure comp_model_desc ! di)) s)))"

definition bind_global_parameters :: "nat \<Rightarrow> state \<Rightarrow> result" where
  "bind_global_parameters idx s =
     (if \<not> idx < length (compiled_submodels s) then throw OutOfBounds s
      else
        let comp_model_desc = compiled_submodels s ! idx;
            real_idx = real s idx;
            do_copy = needs_copy s idx
        in if \<not> idx < length (subrequests_gio s) then throw OutOfRange s
           else if \<not> real_idx < length (compiled_submodels s) then throw OutOfBounds s
           else
             let proto_comp_model_desc = compiled_submodels s ! real_idx
             in case param_subrequest s real_idx of
                  Inl e \<Rightarrow> throw e s
                | Inr subr \<Rightarrow>
                    (case for_each (global_params (subrequests_gio s ! idx))
                            (bind_global_param real_idx subr do_copy proto_comp_model_desc) ([], s) of
                       Inl e \<Rightarrow> Inl e
                     | Inr acc \<Rightarrow>
                         and_then (for_each (fst acc) (copy_global_param subr) (snd acc))
                           (run_host_gather comp_model_desc subr)))"

definition bind_global_result :: "nat \<Rightarrow> nat \<times> nat \<Rightarrow> state \<Rightarrow> result" where
  "bind_global_result idx it s =
     (let result_idx = fst it; sub_out_idx = snd it
      in if \<not> result_idx < length (output_tensors s) then throw OutOfBounds s
         else case rq_at s (Primary idx) of
                Inl e \<Rightarrow> throw e s
              | Inr rq \<Rightarrow>
                  if \<not> sub_out_idx < length (rq_out rq) then throw OutOfBounds s
                  else rq_set_tensor (Primary idx) Out sub_out_idx (output_tensors s ! result_idx) s)"

definition bind_global_results :: "nat \<Rightarrow> state \<Rightarrow> result" where
  "bind_global_results idx s =
     (if \<not> idx < length (compiled_submodels s) then throw OutOfBounds s
      else if replaced_by (compiled_submodels s ! idx) \<noteq> None then Inr s
      else if \<not> idx < length (subrequests_gio s) then throw OutOfRange s
      else for_each (global_results (subrequests_gio s ! idx)) (bind_global_result idx) s)"

subsection \<open>function_prologue\<close>

text \<open>The body of the loop over the parameters of the function, \<open>i < param_base\<close>.\<close>

definition prologue_param :: "nat \<Rightarrow> nat \<Rightarrow> desc \<Rightarrow> nat \<Rightarrow> state \<Rightarrow> result" where
  "prologue_param idx real_idx func_desc i s =
     (case compiled_model func_desc of
        None \<Rightarrow> throw NullDeref s
      | Some cm \<Rightarrow>
          if \<not> i < length (inputs cm) then throw OutOfBounds s
          else case map_of (submodels_input_to_prev_output s) (idx, i) of
            None \<Rightarrow> Inr s
          | Some producer \<Rightarrow>
              let prod_idx = fst producer; prod_port = snd producer
              in if \<not> prod_idx < length (compiled_submodels s) then throw OutOfBounds s
                 else
                   (case (if replaced_by (compiled_submodels s ! prod_idx) = None then
                            (case compiled_model (compiled_submodels s ! prod_idx) of
                               None \<Rightarrow> Inl NullDeref
                             | Some prod_cm \<Rightarrow>
                                 if \<not> prod_port < length (outputs prod_cm) then Inl OutOfBounds
                                 else rq_get_tensor s (Primary prod_idx) Out prod_port)
                          else (case map_of (funcall_result s) (prod_idx, prod_port) of
                                  None \<Rightarrow> Inl OutOfRange
                                | Some t \<Rightarrow> Inr t)) of
                      Inl e \<Rightarrow> throw e s
                    | Inr i_tensor \<Rightarrow>
                        if spatial func_desc = None
                        then rq_set_tensor (Primary real_idx) In i i_tensor s
                        else sio_put_input real_idx i i_tensor s))"

text \<open>The body of the loop over the results of the function.\<close>

definition prologue_result :: "nat \<Rightarrow> nat \<Rightarrow> desc \<Rightarrow> nat \<Rightarrow> state \<Rightarrow> result" where
  "prologue_result idx real_idx func_desc i s =
     (case map_of (funcall_result s) (idx, i) of
        None \<Rightarrow> throw OutOfRange s
      | Some o_tensor \<Rightarrow>
          if spatial func_desc = None
          then rq_set_tensor (Primary real_idx) Out i o_tensor s
          else sio_put_output real_idx i o_tensor s)"

definition function_prologue :: "nat \<Rightarrow> state \<Rightarrow> result" where
  "function_prologue idx s =
     (if \<not> idx < length (compiled_submodels s) then throw OutOfBounds s
      else case replaced_by (compiled_submodels s ! idx) of
        None \<Rightarrow> throw AssertFailed s
      | Some real_idx \<Rightarrow>
          if \<not> real_idx < length (compiled_submodels s) then throw OutOfBounds s
          else
            let func_desc = compiled_submodels s ! real_idx
            in and_then
                 (and_then
                    (for_each [0..<param_base func_desc] (prologue_param idx real_idx func_desc) s)
                    (\<lambda>s1. if \<not> use_function_pipelining s1
                          then unpack_closure idx (Primary real_idx) s1 else Inr s1))
                 (\<lambda>s2. case compiled_model func_desc of
                          None \<Rightarrow> throw NullDeref s2
                        | Some cm \<Rightarrow>
                            for_each [0..<length (outputs cm)]
                              (prologue_result idx real_idx func_desc) s2))"

subsection \<open>Running a subgraph while the next one is prepared\<close>

text \<open>
  \<open>unsafe_during(real_idx, f)\<close>. A body that is not spatial is started, \<open>f\<close> runs, and
  the body is waited for. For a spatial body \<open>f\<close> is a task of its own that runs along
  with \<open>unsafe_infer\<close>; here it runs first. The task's exception stays in the future,
  which is waited for and never asked for its result.
\<close>

definition unsafe_during :: "nat \<Rightarrow> (state \<Rightarrow> result) \<Rightarrow> state \<Rightarrow> result" where
  "unsafe_during real_idx f s =
     (if \<not> real_idx < length (compiled_submodels s) then throw OutOfBounds s
      else if spatial (compiled_submodels s ! real_idx) = None then
        and_then (and_then (rq_start_async (Primary real_idx) s) f) (rq_wait (Primary real_idx))
      else
        (case f s of
           Inl (e, s') \<Rightarrow> if is_exception e then unsafe_infer real_idx s' else Inl (e, s')
         | Inr s' \<Rightarrow> unsafe_infer real_idx s'))"

text \<open>
  ``\<open>if (!next_prepared) { bind_global_parameters(next_idx); next_prepared = true; }\<close>'',
  the start of two of the callbacks.
\<close>

definition prepare_next :: "nat \<Rightarrow> state \<Rightarrow> result" where
  "prepare_next next_idx s =
     (if \<not> next_prepared s then
        (case bind_global_parameters next_idx s of
           Inl e \<Rightarrow> Inl e
         | Inr s' \<Rightarrow> Inr (s'\<lparr>next_prepared := True\<rparr>))
      else Inr s)"

definition unsafe_run_this_prep_next :: "nat \<Rightarrow> state \<Rightarrow> result" where
  "unsafe_run_this_prep_next idx s =
     (if \<not> idx < length (compiled_submodels s) then throw OutOfBounds s
      else
        let comp_model_desc = compiled_submodels s ! idx;
            real_idx = real s idx;
            next_idx = next_sub s (idx + 1)
        in if replaced_by comp_model_desc \<noteq> None then
             (if real_idx = real s next_idx then
                (if use_function_pipelining s then
                   (if \<not> idx < length (funcall_pipeline s) then throw OutOfBounds s
                    else case next_call (funcall_pipeline s ! idx) of
                      None \<Rightarrow> throw BadOptionalAccess s
                    | Some n \<Rightarrow>
                        if n \<noteq> next_idx then throw AssertFailed s
                        else unsafe_during real_idx
                               (\<lambda>s1. and_then (bind_global_parameters next_idx s1)
                                       (unpack_closure next_idx (Reserve real_idx))) s)
                 else and_then (unsafe_infer real_idx s) (bind_global_parameters next_idx))
              else if next_idx = 0 then unsafe_infer real_idx s
              else unsafe_during real_idx
                     (\<lambda>s1. and_then (prepare_next next_idx s1)
                             (\<lambda>s2. if use_function_pipelining s2 then
                                     (if \<not> idx < length (funcall_pipeline s2)
                                      then throw OutOfBounds s2
                                      else case next_call (funcall_pipeline s2 ! idx) of
                                        None \<Rightarrow> Inr s2
                                      | Some my_next_idx \<Rightarrow>
                                          unpack_closure my_next_idx (Reserve real_idx) s2)
                                   else Inr s2)) s)
           else if next_idx = 0 then unsafe_infer real_idx s
           else unsafe_during real_idx (prepare_next next_idx) s)"

subsection \<open>run_subrequest_for_success\<close>

text \<open>
  What an attempt does before the subgraph is run: the subrequests are recreated when
  the model was recompiled for another device, the results are bound, the prologue of a
  function call runs, and the inputs are dumped the first time.
\<close>

definition prepare_attempt :: "nat \<Rightarrow> bool \<Rightarrow> state \<Rightarrow> result" where
  "prepare_attempt idx dump_in s =
     (let real_idx = real s idx
      in if \<not> (real_idx < length (compiled_submodels s) \<and> real_idx < length (subrequest_devices s))
         then throw OutOfBounds s
         else case device_of s real_idx of
           Inl e \<Rightarrow> throw e s
         | Inr dev \<Rightarrow>
             and_then
               (and_then
                  (and_then
                     (if subrequest_devices s ! real_idx \<noteq> dev
                      then recreate_subrequests real_idx s else Inr s)
                     (bind_global_results idx))
                  (\<lambda>s2. if replaced_by (compiled_submodels s2 ! idx) \<noteq> None
                        then function_prologue idx s2 else Inr s2))
               (\<lambda>s3. if \<not> dump_in then Inr (emit (DumpInputs idx) s3) else Inr s3))"

text \<open>
  What follows an attempt that threw: the device iterator of \<open>comp_model_desc\<close>, the
  descriptor of \<open>idx\<close>, moves on, the function body is compiled again, and the
  subrequests are recreated.
\<close>

definition next_device :: "nat \<Rightarrow> state \<Rightarrow> result" where
  "next_device idx s =
     (let s1 = s\<lparr>failover := True\<rparr>;
          comp_model_desc = compiled_submodels s1 ! idx;
          s2 = s1\<lparr>compiled_submodels :=
                   (compiled_submodels s1)[idx := comp_model_desc\<lparr>device_it := device_it comp_model_desc + 1\<rparr>]\<rparr>;
          real_idx = real s2 idx
      in if \<not> real_idx < length (compiled_submodels s2) then throw OutOfBounds s2
         else if \<not> fst (compile_for_success real_idx s2)
           then throw NoMoreDevices (snd (compile_for_success real_idx s2))
           else recreate_subrequests idx (snd (compile_for_success real_idx s2)))"

text \<open>
  The loop ``\<open>while (!job_done)\<close>'', with a bound on the number of attempts: \<open>None\<close> when
  the bound is used up.
\<close>

fun run_attempts :: "nat \<Rightarrow> nat \<Rightarrow> bool \<Rightarrow> state \<Rightarrow> result option" where
  "run_attempts 0 idx dump_in s = None"
| "run_attempts (Suc fuel) idx dump_in s =
     (case prepare_attempt idx dump_in s of
        Inl e \<Rightarrow> Some (Inl e)
      | Inr s1 \<Rightarrow>
          (case unsafe_run_this_prep_next idx s1 of
             Inr s2 \<Rightarrow> Some (Inr s2)
           | Inl (e, s2) \<Rightarrow>
               if \<not> is_exception e then Some (Inl (e, s2))
               else (case next_device idx s2 of
                       Inl e' \<Rightarrow> Some (Inl e')
                     | Inr s3 \<Rightarrow> run_attempts fuel idx True s3)))"

text \<open>
  The end of \<open>run_subrequest_for_success\<close>: the outputs are dumped and, with function
  pipelining, the subrequest of a call that has a successor is swapped with the reserve.
\<close>

definition finish_subrequest :: "nat \<Rightarrow> state \<Rightarrow> result" where
  "finish_subrequest idx s =
     (let s1 = emit (DumpOutputs idx) s; real_idx = real s1 idx
      in if use_function_pipelining s1 then
           (if \<not> idx < length (funcall_pipeline s1) then throw OutOfBounds s1
            else if next_call (funcall_pipeline s1 ! idx) \<noteq> None then
              (if \<not> (real_idx < length (subrequests s1) \<and> real_idx < length (funcall_pipeline s1))
               then throw OutOfBounds s1
               else Inr (rq_put (Reserve real_idx) (subrequests s1 ! real_idx)
                          (rq_put (Primary real_idx)
                             (subrequest (funcall_pipeline s1 ! real_idx)) s1)))
            else Inr s1)
         else Inr s1)"

definition run_subrequest_for_success :: "nat \<Rightarrow> nat \<Rightarrow> state \<Rightarrow> result option" where
  "run_subrequest_for_success fuel idx s =
     (if \<not> idx < length (compiled_submodels s) then Some (throw OutOfBounds s)
      else case run_attempts fuel idx False (s\<lparr>failover := False, next_prepared := False\<rparr>) of
             None \<Rightarrow> None
           | Some (Inl e) \<Rightarrow> Some (Inl e)
           | Some (Inr s1) \<Rightarrow> Some (finish_subrequest idx s1))"

subsection \<open>What a run leaves in place\<close>

text \<open>
  The identities of the subrequests in the slots of the request, those of
  \<open>m_subrequests\<close> and those of the reserves.
\<close>

definition handle_ids :: "state \<Rightarrow> nat option list \<times> nat option list" where
  "handle_ids s =
     (map (map_option rq_id) (subrequests s),
      map (\<lambda>p. map_option rq_id (subrequest p)) (funcall_pipeline s))"

text \<open>
  What the failover loop does not touch: whether function calls are pipelined, the
  successor of every call in its pipeline, and which function every subgraph calls.
  \<open>obs\<close> adds what only the failover itself changes, the flag and the handles.
\<close>

definition plan :: "state \<Rightarrow> bool \<times> nat option list \<times> nat option list" where
  "plan s =
     (use_function_pipelining s, map next_call (funcall_pipeline s),
      map replaced_by (compiled_submodels s))"

definition obs :: "state \<Rightarrow> (bool \<times> nat option list \<times> nat option list) \<times> bool \<times> nat option list \<times> nat option list" where
  "obs s = (plan s, failover s, handle_ids s)"

definition pf :: "state \<Rightarrow> (bool \<times> nat option list \<times> nat option list) \<times> bool" where
  "pf s = (plan s, failover s)"

text \<open>The state a step leaves the request in, whether it threw or not.\<close>

definition final :: "error \<times> state + state \<Rightarrow> state" where
  "final r = (case r of Inl es \<Rightarrow> snd es | Inr s \<Rightarrow> s)"

definition final_of :: "('a \<Rightarrow> state) \<Rightarrow> error \<times> state + 'a \<Rightarrow> state" where
  "final_of st r = (case r of Inl es \<Rightarrow> snd es | Inr a \<Rightarrow> st a)"


section \<open>Concrete requests\<close>

text \<open>Small requests on which the definitions are evaluated.\<close>

definition empty_desc :: desc where
  "empty_desc =
     \<lparr>compiled_model = None, replaced_by = None, device_it = 0, param_base = 0,
      closure = [], update_required = [], scales = [], zerops = [],
      host_gather = \<lparr>dst_idx = - 1, src_idx = - 1, idx_idx = - 1\<rparr>, spatial = None\<rparr>"

definition empty_state :: state where
  "empty_state =
     \<lparr>compiled_submodels = [], dev_list = [], submodels_input_to_prev_output = [],
      use_function_pipelining = False, subrequests = [], subrequest_devices = [],
      funcall_pipeline = [], funcall_heads = [], funcall_result = [], spatial_io = [],
      subrequests_gio = [], input_tensors = [], output_tensors = [], now_idx = None,
      copy_devices = [], uncompilable = [], next_rq_id = 0, infer_outcomes = [],
      next_prepared = False, failover = False, events = []\<rparr>"

text \<open>A compiled model with one \<open>f16\<close> input and one \<open>f16\<close> output of shape \<open>[1,4]\<close>.\<close>

definition cm_1_1 :: compiled where
  "cm_1_1 = \<lparr>inputs = [\<lparr>port_type = f16, port_shape = [1, 4]\<rparr>],
             outputs = [\<lparr>port_type = f16, port_shape = [1, 4]\<rparr>]\<rparr>"

definition normal_desc :: desc where
  "normal_desc = empty_desc\<lparr>compiled_model := Some cm_1_1\<rparr>"

definition rq_1_1 :: "nat \<Rightarrow> subrequest" where
  "rq_1_1 n = \<lparr>rq_id = n, rq_in = [dense_tensor (OfRequest n In 0) f16 [1, 4]],
              rq_out = [dense_tensor (OfRequest n Out 0) f16 [1, 4]]\<rparr>"

text \<open>
  Subgraph 0 is optimized out; subgraph 1 is a function body (it is replaced by
  itself) with a subrequest; the only link feeds output 0 of subgraph 0 to input 0 of
  subgraph 1.
\<close>

definition wiring_skipped_example :: state where
  "wiring_skipped_example = empty_state
     \<lparr>compiled_submodels := [empty_desc, normal_desc\<lparr>replaced_by := Some 1\<rparr>],
      submodels_input_to_prev_output := [((1, 0), (0, 0))],
      subrequests := [None, Some (rq_1_1 1)]\<rparr>"

text \<open>
  Subgraph 0 is a function body whose result 0 is preallocated; subgraph 1 is optimized
  out and reads that result.
\<close>

definition wiring_null_example :: state where
  "wiring_null_example = empty_state
     \<lparr>compiled_submodels := [normal_desc\<lparr>replaced_by := Some 0\<rparr>, empty_desc],
      submodels_input_to_prev_output := [((1, 0), (0, 0))],
      subrequests := [Some (rq_1_1 0), None],
      funcall_result := [((0, 0), dense_tensor (Allocated 7) f16 [1, 4])]\<rparr>"

text \<open>Two normal subgraphs; the producer (0) or the consumer (1) lost its subrequest.\<close>

definition wiring_fatal_example :: state where
  "wiring_fatal_example = empty_state
     \<lparr>compiled_submodels := [empty_desc, normal_desc],
      submodels_input_to_prev_output := [((1, 0), (0, 0))],
      subrequests := [None, Some (rq_1_1 1)]\<rparr>"

definition wiring_warn_example :: state where
  "wiring_warn_example = empty_state
     \<lparr>compiled_submodels := [normal_desc, empty_desc],
      submodels_input_to_prev_output := [((1, 0), (0, 0))],
      subrequests := [Some (rq_1_1 0), None]\<rparr>"

text \<open>
  Subgraphs 0 and 2 are normal, subgraph 1 is a function body. Subgraph 2 reads
  output 0 of subgraph 0 at its input 0 and result 0 of the function call 1 at its
  input 1.
\<close>

definition wiring_example :: state where
  "wiring_example = empty_state
     \<lparr>compiled_submodels := [normal_desc, normal_desc\<lparr>replaced_by := Some 1\<rparr>, normal_desc],
      submodels_input_to_prev_output := [((2, 0), (0, 0)), ((2, 1), (1, 0))],
      subrequests := [Some (rq_1_1 0), Some (rq_1_1 1),
                      Some ((rq_1_1 2)\<lparr>rq_in := [dense_tensor (OfRequest 2 In 0) f16 [1, 4],
                                                dense_tensor (OfRequest 2 In 1) f16 [1, 4]]\<rparr>)],
      funcall_result := [((1, 0), dense_tensor (Allocated 7) f16 [1, 4])]\<rparr>"

text \<open>
  A function body (subgraph 0, replaced by itself) with one activation and three
  closures: an \<open>i4\<close> weight with scale and zero point for an \<open>f16\<close> port, an \<open>f16\<close> weight
  that must be updated, and an \<open>f16\<close> weight that needs no update.
\<close>

definition cm_4_1 :: compiled where
  "cm_4_1 = \<lparr>inputs = replicate 4 \<lparr>port_type = f16, port_shape = [1, 4]\<rparr>,
             outputs = [\<lparr>port_type = f16, port_shape = [1, 4]\<rparr>]\<rparr>"

definition rq_4_1 :: "nat \<Rightarrow> subrequest" where
  "rq_4_1 n = \<lparr>rq_id = n,
              rq_in = map (\<lambda>p. dense_tensor (OfRequest n In p) f16 [1, 4]) [0, 1, 2, 3],
              rq_out = [dense_tensor (OfRequest n Out 0) f16 [1, 4]]\<rparr>"

definition closure_desc :: desc where
  "closure_desc = empty_desc
     \<lparr>compiled_model := Some cm_4_1, replaced_by := Some 0, param_base := 1,
      closure := [dense_tensor (Allocated 1) i4 [1, 4], dense_tensor (Allocated 2) f16 [1, 4],
                  dense_tensor (Allocated 3) f16 [1, 4]],
      update_required := [True, True, False],
      scales := [Some (dense_tensor (Allocated 4) f16 [1, 1]), None, None],
      zerops := [Some (dense_tensor (Allocated 5) i4 [1, 1]), None, None]\<rparr>"

definition closure_example :: state where
  "closure_example = empty_state
     \<lparr>compiled_submodels := [closure_desc], dev_list := [''NPU''],
      subrequests := [Some (rq_4_1 0)], subrequest_devices := [''NPU'']\<rparr>"

text \<open>
  A request with function pipelining. Subgraph 0 is a function body with one activation
  and one \<open>f16\<close> weight that needs no update; subgraph 1 is a second call of that
  function, with the same weight and no compiled model of its own; subgraph 2 is a
  normal subgraph. The body has a primary and a reserve subrequest, each with the
  tensors it was created with, and the pipeline records that call 1 follows call 0.
\<close>

definition cm_2_1 :: compiled where
  "cm_2_1 = \<lparr>inputs = replicate 2 \<lparr>port_type = f16, port_shape = [1, 4]\<rparr>,
             outputs = [\<lparr>port_type = f16, port_shape = [1, 4]\<rparr>]\<rparr>"

definition rq_2_1 :: "nat \<Rightarrow> subrequest" where
  "rq_2_1 n = \<lparr>rq_id = n,
              rq_in = map (\<lambda>p. dense_tensor (OfRequest n In p) f16 [1, 4]) [0, 1],
              rq_out = [dense_tensor (OfRequest n Out 0) f16 [1, 4]]\<rparr>"

definition static_call :: desc where
  "static_call = empty_desc
     \<lparr>replaced_by := Some 0, param_base := 1,
      closure := [dense_tensor (Allocated 1) f16 [1, 4]], update_required := [False]\<rparr>"

definition pipeline_example :: state where
  "pipeline_example = empty_state
     \<lparr>compiled_submodels := [static_call\<lparr>compiled_model := Some cm_2_1\<rparr>, static_call, normal_desc],
      dev_list := [''NPU''], use_function_pipelining := True,
      subrequests := [Some (rq_2_1 0), None, Some (rq_1_1 2)],
      subrequest_devices := [''NPU'', [], ''NPU''],
      funcall_pipeline := [\<lparr>subrequest = Some (rq_2_1 1), next_call = Some 1\<rparr>,
                           \<lparr>subrequest = None, next_call = None\<rparr>,
                           \<lparr>subrequest = None, next_call = None\<rparr>],
      funcall_heads := [0],
      funcall_result := [((0, 0), dense_tensor (Allocated 7) f16 [1, 4]),
                         ((1, 0), dense_tensor (Allocated 8) f16 [1, 4])],
      subrequests_gio := replicate 3 \<lparr>global_params = [], global_results = []\<rparr>,
      next_rq_id := 3\<rparr>"

text \<open>
  The same request when the constructor is done: the weight of the weights bank is at
  port 1 of the primary subrequest.
\<close>

definition pipeline_constructed :: state where
  "pipeline_constructed = pipeline_example
     \<lparr>subrequests :=
        [Some ((rq_2_1 0)\<lparr>rq_in := [dense_tensor (OfRequest 0 In 0) f16 [1, 4],
                                     dense_tensor (InBank (Allocated 1) ''NPU'') f16 [1, 4]]\<rparr>),
         None, Some (rq_1_1 2)],
      events := [SetTensor 0 In 1 (dense_tensor (InBank (Allocated 1) ''NPU'') f16 [1, 4])]\<rparr>"

text \<open>
  The same request while an inference runs subgraph 0, and when
  \<open>run_subrequest_for_success(0)\<close> is done: the result of the call is bound, the body has
  run on the primary subrequest, and the primary and the reserve are swapped.
\<close>

definition pipeline_running :: state where
  "pipeline_running = pipeline_constructed\<lparr>now_idx := Some 0\<rparr>"

definition pipeline_swapped :: state where
  "pipeline_swapped = pipeline_running
     \<lparr>subrequests := [Some (rq_2_1 1), None, Some (rq_1_1 2)],
      funcall_pipeline :=
        [\<lparr>subrequest =
            Some ((rq_2_1 0)\<lparr>rq_in := [dense_tensor (OfRequest 0 In 0) f16 [1, 4],
                                        dense_tensor (InBank (Allocated 1) ''NPU'') f16 [1, 4]],
                              rq_out := [dense_tensor (Allocated 7) f16 [1, 4]]\<rparr>),
          next_call = Some 1\<rparr>,
         \<lparr>subrequest = None, next_call = None\<rparr>,
         \<lparr>subrequest = None, next_call = None\<rparr>],
      events := [SetTensor 0 In 1 (dense_tensor (InBank (Allocated 1) ''NPU'') f16 [1, 4]),
                 SetTensor 0 Out 0 (dense_tensor (Allocated 7) f16 [1, 4]),
                 DumpInputs 0, StartAsync 0, Wait 0, DumpOutputs 0]\<rparr>"

text \<open>
  Subgraph 0 is a function body with its subrequest, subgraph 1 a call of that
  function: its own slot in \<open>m_subrequests\<close> is empty.
\<close>

definition funcall_example :: state where
  "funcall_example = empty_state
     \<lparr>compiled_submodels := [normal_desc\<lparr>replaced_by := Some 0\<rparr>,
                             normal_desc\<lparr>replaced_by := Some 0\<rparr>],
      dev_list := [''NPU''],
      subrequests := [Some (rq_1_1 0), None], subrequest_devices := [''NPU'', ''NPU'']\<rparr>"

text \<open>
  A spatial function body: range 10 along dimension 1, tiles of 4, two full iterations
  and a tail of 2. Input 0 is the spatial parameter; the full tensors and the tail
  buffers are in place.
\<close>

definition spatial_10 :: spatial where
  "spatial_10 = \<lparr>params = [\<lparr>param_idx = 0, param_dim = 1\<rparr>], out_dim = 1,
                  spatial_range = 10, nway = 4, nway_iters = 2, tail_size = 2\<rparr>"

definition spatial_io_10 :: spatial_io where
  "spatial_io_10 =
     \<lparr>sio_inputs = [Some (dense_tensor (Allocated 1) f16 [1, 10])],
      input_tails = [Some (dense_tensor (Allocated 2) f16 [1, 4])],
      sio_outputs = [Some (dense_tensor (Allocated 3) f16 [1, 10])],
      output_tails = [Some (dense_tensor (Allocated 4) f16 [1, 4])]\<rparr>"

definition spatial_example :: state where
  "spatial_example = empty_state
     \<lparr>compiled_submodels :=
        [normal_desc\<lparr>replaced_by := Some 0, param_base := 1, spatial := Some spatial_10\<rparr>],
      dev_list := [''NPU''],
      subrequests := [Some (rq_1_1 0)], subrequest_devices := [''NPU''],
      spatial_io := [spatial_io_10]\<rparr>"

text \<open>
  A request with two devices. Subgraph 0 is a function body, subgraph 1 a call of that
  function and subgraph 2 a normal subgraph; the first execution of a subrequest is
  going to throw.
\<close>

definition call_desc :: desc where
  "call_desc = empty_desc\<lparr>replaced_by := Some 0\<rparr>"

definition failover_example :: state where
  "failover_example = empty_state
     \<lparr>compiled_submodels := [normal_desc\<lparr>replaced_by := Some 0\<rparr>, call_desc, normal_desc],
      dev_list := [''NPU'', ''CPU''],
      subrequests := [Some (rq_1_1 0), None, Some (rq_1_1 2)],
      subrequest_devices := [''NPU'', [], ''NPU''],
      funcall_result := [((0, 0), dense_tensor (Allocated 7) f16 [1, 4]),
                         ((1, 0), dense_tensor (Allocated 8) f16 [1, 4])],
      subrequests_gio := replicate 3 \<lparr>global_params = [], global_results = []\<rparr>,
      next_rq_id := 3, infer_outcomes := [False]\<rparr>"

section \<open>Properties of util.cpp\<close>

subsection \<open>Nibbles\<close>

lemma lo4_take: "lo4 x = take_bit 4 x"
proof -
  have "(15 :: byte) = mask 4" by (simp add: mask_eq_exp_minus_1)
  then show ?thesis by (simp add: lo4_def take_bit_eq_mask)
qed

lemma lo4_join: "lo4 (push_bit 4 h OR lo4 v) = lo4 v"
  unfolding lo4_take hi4_def
  by (rule bit_word_eqI) (auto simp add: bit_simps)

lemma hi4_join: "hi4 (push_bit 4 (hi4 x) OR lo4 v) = hi4 x"
  unfolding lo4_take hi4_def
  by (rule bit_word_eqI) (auto simp add: bit_simps dest: bit_imp_le_length)

lemma hi4_join2: "hi4 (push_bit 4 (lo4 v) OR lo4 x) = lo4 v"
  unfolding lo4_take hi4_def
  by (rule bit_word_eqI) (auto simp add: bit_simps)

lemma lo4_join2: "lo4 (push_bit 4 h OR lo4 x) = lo4 x"
  unfolding lo4_take hi4_def
  by (rule bit_word_eqI) (auto simp add: bit_simps)

lemma lo4_lo4: "lo4 (lo4 x) = lo4 x"
  unfolding lo4_take by simp

lemma lo4_hi4: "lo4 (hi4 x) = hi4 x"
  unfolding lo4_take hi4_def
  by (rule bit_word_eqI) (auto simp add: bit_simps dest: bit_imp_le_length)

lemma byte_split: "push_bit 4 (hi4 x) OR lo4 x = x"
  unfolding lo4_take hi4_def
  by (rule bit_word_eqI) (auto simp add: bit_simps)

lemma byte_eqI: "lo4 x = lo4 y \<Longrightarrow> hi4 x = hi4 y \<Longrightarrow> x = y"
  by (metis byte_split)

lemma lo4_nib: "lo4 (nib d k) = nib d k"
  by (simp add: nib_def lo4_lo4 lo4_hi4)

lemma length_nib_upd: "length (nib_upd d k v) = length d"
  by (simp add: nib_upd_def)

lemma nib_nib_upd:
  assumes "k < 2 * length d"
  shows "nib (nib_upd d k v) k' = (if k' = k then lo4 v else nib d k')"
proof (cases "k' div 2 = k div 2")
  case False
  then have "k' \<noteq> k" by auto
  with False show ?thesis by (simp add: nib_def nib_upd_def)
next
  case True
  from assms have lt: "k div 2 < length d" by auto
  show ?thesis
  proof (cases "k' = k")
    case True
    with lt show ?thesis
      by (simp add: nib_def nib_upd_def lo4_join hi4_join2)
  next
    case False
    with True have par: "even k' \<longleftrightarrow> odd k"
      by (metis dvd_mult_div_cancel odd_two_times_div_two_succ)
    with True lt False show ?thesis
      by (auto simp add: nib_def nib_upd_def lo4_join2 hi4_join)
  qed
qed

lemma addr_even:
  fixes COLS c r :: nat
  assumes "even COLS" "c < COLS"
  shows "r * COLS div 2 + c div 2 = (r * COLS + c) div 2"
    and "even (r * COLS + c) \<longleftrightarrow> even c"
  using assms by (auto elim!: evenE)

lemma tread_4b_even:
  assumes "even COLS" "c < COLS" "r * COLS + c < 2 * length d"
  shows "tread_4b d r c COLS = Inr (nib d (r * COLS + c))"
proof -
  have "(r * COLS + c) div 2 < length d" using assms(3) by auto
  then show ?thesis
    using addr_even[OF assms(1,2), of r]
    by (simp add: tread_4b_def nib_def Let_def even_iff_mod_2_eq_zero)
qed

lemma twrite_4b_even:
  assumes "even COLS" "c < COLS" "r * COLS + c < 2 * length d"
  shows "twrite_4b d v r c COLS = Inr (nib_upd d (r * COLS + c) v)"
proof -
  have "(r * COLS + c) div 2 < length d" using assms(3) by auto
  then show ?thesis
    using addr_even[OF assms(1,2), of r]
    by (simp add: twrite_4b_def nib_upd_def Let_def even_iff_mod_2_eq_zero)
qed


lemma idx_bound:
  fixes i j R C :: nat
  assumes "i < R" "j < C"
  shows "i * C + j < R * C"
proof -
  have "i * C + j < Suc i * C" using assms(2) by simp
  also have "\<dots> \<le> R * C" using assms(1) by (intro mult_le_mono1) simp
  finally show ?thesis .
qed

lemma div_mod_decomp:
  fixes x y N :: nat
  assumes "x < N"
  shows "(y * N + x) mod N = x" and "(y * N + x) div N = y"
  using assms by simp_all

lemma transpose_inner:
  fixes ROWS COLS i :: nat
  assumes "even ROWS" "even COLS" "i < ROWS" "2 * length t = ROWS * COLS"
    "2 * length tnew = ROWS * COLS" "set js \<subseteq> {..<COLS}"
  shows "\<exists>d. for_each js (transpose_cell t ROWS COLS i) tnew = Inr d \<and> length d = length tnew \<and>
           (\<forall>k. nib d k = (if k mod ROWS = i \<and> k div ROWS \<in> set js
                           then nib t (i * COLS + k div ROWS) else nib tnew k))"
  using assms(5,6)
proof (induction js arbitrary: tnew)
  case Nil
  then show ?case by simp
next
  case (Cons j js)
  from Cons.prems have j: "j < COLS" by simp
  have rd: "i * COLS + j < 2 * length t"
    using idx_bound[OF assms(3) j] assms(4) by simp
  have wr: "j * ROWS + i < 2 * length tnew"
    using idx_bound[OF j assms(3)] Cons.prems(1) by (simp add: mult.commute)
  let ?tnew1 = "nib_upd tnew (j * ROWS + i) (nib t (i * COLS + j))"
  have step: "transpose_cell t ROWS COLS i j tnew = Inr ?tnew1"
    using tread_4b_even[OF assms(2) j rd] twrite_4b_even[OF assms(1,3) wr]
    by (simp add: transpose_cell_def)
  have len1: "2 * length ?tnew1 = ROWS * COLS"
    using Cons.prems(1) by (simp add: length_nib_upd)
  from Cons.prems(2) have sub: "set js \<subseteq> {..<COLS}" by simp
  from Cons.IH[OF len1 sub] obtain d where
    d: "for_each js (transpose_cell t ROWS COLS i) ?tnew1 = Inr d" "length d = length ?tnew1"
    "\<And>k. nib d k = (if k mod ROWS = i \<and> k div ROWS \<in> set js
                           then nib t (i * COLS + k div ROWS) else nib ?tnew1 k)"
    by blast
  have dm: "(j * ROWS + i) mod ROWS = i" "(j * ROWS + i) div ROWS = j"
    using div_mod_decomp[OF assms(3)] by simp_all
  have "nib d k = (if k mod ROWS = i \<and> k div ROWS \<in> set (j # js)
                           then nib t (i * COLS + k div ROWS) else nib tnew k)" for k
  proof (cases "k = j * ROWS + i")
    case True
    then show ?thesis
      using d(3)[of k] dm nib_nib_upd[OF wr, of "nib t (i * COLS + j)" k]
      by (simp add: lo4_nib)
  next
    case False
    have "\<not> (k mod ROWS = i \<and> k div ROWS = j)"
    proof
      assume "k mod ROWS = i \<and> k div ROWS = j"
      then have "k = j * ROWS + i" by (metis div_mult_mod_eq)
      with False show False by simp
    qed
    then show ?thesis
      using d(3)[of k] False nib_nib_upd[OF wr, of "nib t (i * COLS + j)" k]
      by auto
  qed
  with d(1,2) step show ?case by (simp add: length_nib_upd)
qed

lemma transpose_outer:
  fixes ROWS COLS :: nat
  assumes "even ROWS" "even COLS" "2 * length t = ROWS * COLS"
    "2 * length tnew = ROWS * COLS" "set is \<subseteq> {..<ROWS}"
  shows "\<exists>d. for_each is (\<lambda>i. for_each [0..<COLS] (transpose_cell t ROWS COLS i)) tnew = Inr d \<and>
           length d = length tnew \<and>
           (\<forall>k. nib d k = (if k mod ROWS \<in> set is \<and> k div ROWS < COLS
                           then nib t (k mod ROWS * COLS + k div ROWS) else nib tnew k))"
  using assms(4,5)
proof (induction "is" arbitrary: tnew)
  case Nil
  then show ?case by simp
next
  case (Cons i "is")
  from Cons.prems have i: "i < ROWS" by simp
  have "set [0..<COLS] \<subseteq> {..<COLS}" by auto
  from transpose_inner[OF assms(1,2) i assms(3) Cons.prems(1) this] obtain d1 where
    d1: "for_each [0..<COLS] (transpose_cell t ROWS COLS i) tnew = Inr d1" "length d1 = length tnew"
    "\<And>k. nib d1 k = (if k mod ROWS = i \<and> k div ROWS \<in> set [0..<COLS]
                           then nib t (i * COLS + k div ROWS) else nib tnew k)"
    by blast
  have len1: "2 * length d1 = ROWS * COLS" using d1(2) Cons.prems(1) by simp
  from Cons.prems(2) have sub: "set is \<subseteq> {..<ROWS}" by simp
  from Cons.IH[OF len1 sub] obtain d where
    d: "for_each is (\<lambda>i. for_each [0..<COLS] (transpose_cell t ROWS COLS i)) d1 = Inr d"
    "length d = length d1"
    "\<And>k. nib d k = (if k mod ROWS \<in> set is \<and> k div ROWS < COLS
                           then nib t (k mod ROWS * COLS + k div ROWS) else nib d1 k)"
    by blast
  have "nib d k = (if k mod ROWS \<in> set (i # is) \<and> k div ROWS < COLS
                           then nib t (k mod ROWS * COLS + k div ROWS) else nib tnew k)" for k
    using d(3)[of k] d1(3)[of k] by auto
  with d(1,2) d1(1,2) show ?case by simp
qed

lemma transpose_t_even:
  assumes "element_type t = i4" "shape t = [A, B, C]" "even (A * B)" "even C"
    "2 * length (data t) = A * B * C" "length fresh = length (data t)"
  shows "\<exists>d. transpose_t fresh t = Inr \<lparr>element_type = i4, shape = [C, A, B], data = d\<rparr> \<and>
           length d = length (data t) \<and>
           (\<forall>k<A * B * C. nib d k = nib (data t) (k mod (A * B) * C + k div (A * B)))"
proof -
  have len: "2 * length fresh = A * B * C" using assms(5,6) by simp
  have "set [0..<A * B] \<subseteq> {..<A * B}" by auto
  from transpose_outer[OF assms(3,4,5) len this] obtain d where
    d: "for_each [0..<A * B] (\<lambda>i. for_each [0..<C] (transpose_cell (data t) (A * B) C i)) fresh = Inr d"
    "length d = length fresh"
    "\<And>k. nib d k = (if k mod (A * B) \<in> set [0..<A * B] \<and> k div (A * B) < C
                then nib (data t) (k mod (A * B) * C + k div (A * B)) else nib fresh k)"
    by blast
  have "nib d k = nib (data t) (k mod (A * B) * C + k div (A * B))" if "k < A * B * C" for k
  proof -
    from that have pos: "0 < A * B" by (cases "A * B = 0") auto
    from that have "k div (A * B) < C"
      by (simp add: less_mult_imp_div_less mult.commute)
    with pos d(3)[of k] show ?thesis by simp
  qed
  with d(1,2) assms show ?thesis
    by (simp add: transpose_t_def Let_def)
qed


lemma rot_index:
  fixes A B C k :: nat
  assumes "k < A * B * C"
  defines "q3 \<equiv> k mod (B * C) * A + k div (B * C)"
  defines "q2 \<equiv> q3 mod (C * A) * B + q3 div (C * A)"
  shows "q3 < C * A * B" "q2 < A * B * C" "q2 mod (A * B) * C + q2 div (A * B) = k"
proof -
  define a where "a = k div (B * C)"
  define r where "r = k mod (B * C)"
  define b where "b = r div C"
  define c where "c = r mod C"
  from assms(1) have posBC: "0 < B * C" by (cases "B * C = 0") auto
  then have posC: "0 < C" by simp
  have "k < A * (B * C)" using assms(1) by (simp add: mult.assoc)
  then have a: "a < A" unfolding a_def by (rule less_mult_imp_div_less)
  have r: "r < B * C" unfolding r_def using posBC by simp
  have b: "b < B" unfolding b_def using r by (simp add: less_mult_imp_div_less)
  have c: "c < C" unfolding c_def using posC by simp
  have rbc: "r = b * C + c" unfolding b_def c_def by (rule div_mult_mod_eq[symmetric])
  have kabc: "k = a * (B * C) + r" unfolding a_def r_def by (rule div_mult_mod_eq[symmetric])
  have ca: "c * A + a < C * A" using idx_bound[OF c a] .
  have ab: "a * B + b < A * B" using idx_bound[OF a b] .
  have "q3 = r * A + a" unfolding q3_def a_def r_def ..
  then have q3: "q3 = b * (C * A) + (c * A + a)"
    unfolding rbc by (simp add: algebra_simps)
  show "q3 < C * A * B"
    using idx_bound[OF r a] unfolding q3_def r_def a_def by (simp add: ac_simps)
  have q3m: "q3 mod (C * A) = c * A + a" "q3 div (C * A) = b"
    unfolding q3 using div_mod_decomp[OF ca] by simp_all
  have q2: "q2 = c * (A * B) + (a * B + b)"
    unfolding q2_def q3m by (simp add: algebra_simps)
  show "q2 < A * B * C"
    unfolding q2_def q3m using idx_bound[OF ca b] by (simp add: ac_simps)
  have q2m: "q2 mod (A * B) = a * B + b" "q2 div (A * B) = c"
    unfolding q2 using div_mod_decomp[OF ab] by simp_all
  show "q2 mod (A * B) * C + q2 div (A * B) = k"
    unfolding q2m kabc rbc by (simp add: algebra_simps)
qed

lemma nib_ext:
  assumes "length d = length d'" "\<And>k. k < 2 * length d \<Longrightarrow> nib d k = nib d' k"
  shows "d = d'"
proof (rule nth_equalityI[OF assms(1)])
  fix i assume i: "i < length d"
  have "nib d (2 * i) = nib d' (2 * i)" "nib d (Suc (2 * i)) = nib d' (Suc (2 * i))"
    using assms(2) i by simp_all
  then have "lo4 (d ! i) = lo4 (d' ! i)" "hi4 (d ! i) = hi4 (d' ! i)"
    by (simp_all add: nib_def)
  then show "d ! i = d' ! i" by (rule byte_eqI)
qed

subsection \<open>transpose\<close>

text \<open>
  Claim C9, as amended. For a 3-D \<open>i4\<close> tensor whose three dimensions are all even (so
  that every row of nibbles starts on a byte), three successive calls of \<open>transpose\<close>,
  each mapping the layout \<open>[A,B,C]\<close> to \<open>[C,A,B]\<close>, give back the tensor itself: the same
  element type, the same shape and the same bytes, whatever the three fresh buffers
  held before.
\<close>

theorem transpose_thrice_identity:
  assumes "element_type t = i4" "shape t = [A, B, C]" "even A" "even B" "even C"
    "2 * length (data t) = A * B * C"
    "length f1 = length (data t)" "length f2 = length (data t)" "length f3 = length (data t)"
  shows "transpose_thrice f1 f2 f3 t = Inr t"
proof -
  let ?n = "length (data t)"
  from transpose_t_even[OF assms(1,2) _ assms(5,6,7)] assms(3) obtain d1 where
    d1: "transpose_t f1 t = Inr \<lparr>element_type = i4, shape = [C, A, B], data = d1\<rparr>"
    "length d1 = ?n"
    "\<And>k. k < A * B * C \<Longrightarrow> nib d1 k = nib (data t) (k mod (A * B) * C + k div (A * B))"
    by auto
  let ?t1 = "\<lparr>element_type = i4, shape = [C, A, B], data = d1\<rparr>"
  have l1: "2 * length (data ?t1) = C * A * B" using d1(2) assms(6) by (simp add: ac_simps)
  have "\<exists>d. transpose_t f2 ?t1 = Inr \<lparr>element_type = i4, shape = [B, C, A], data = d\<rparr> \<and>
           length d = length (data ?t1) \<and>
           (\<forall>k<C * A * B. nib d k = nib (data ?t1) (k mod (C * A) * B + k div (C * A)))"
    by (rule transpose_t_even) (use assms d1(2) l1 in simp_all)
  then obtain d2 where
    d2: "transpose_t f2 ?t1 = Inr \<lparr>element_type = i4, shape = [B, C, A], data = d2\<rparr>"
    "length d2 = ?n"
    "\<And>k. k < C * A * B \<Longrightarrow> nib d2 k = nib d1 (k mod (C * A) * B + k div (C * A))"
    using d1(2) by auto
  let ?t2 = "\<lparr>element_type = i4, shape = [B, C, A], data = d2\<rparr>"
  have l2: "2 * length (data ?t2) = B * C * A" using d2(2) assms(6) by (simp add: ac_simps)
  have "\<exists>d. transpose_t f3 ?t2 = Inr \<lparr>element_type = i4, shape = [A, B, C], data = d\<rparr> \<and>
           length d = length (data ?t2) \<and>
           (\<forall>k<B * C * A. nib d k = nib (data ?t2) (k mod (B * C) * A + k div (B * C)))"
    by (rule transpose_t_even) (use assms d2(2) l2 in simp_all)
  then obtain d3 where
    d3: "transpose_t f3 ?t2 = Inr \<lparr>element_type = i4, shape = [A, B, C], data = d3\<rparr>"
    "length d3 = ?n"
    "\<And>k. k < B * C * A \<Longrightarrow> nib d3 k = nib d2 (k mod (B * C) * A + k div (B * C))"
    using d2(2) by auto
  have "nib d3 k = nib (data t) k" if "k < 2 * length d3" for k
  proof -
    from that d3(2) assms(6) have k: "k < A * B * C" by simp
    then have k': "k < B * C * A" by (simp add: ac_simps)
    note ri = rot_index[OF k]
    have "nib d3 k = nib d2 (k mod (B * C) * A + k div (B * C))"
      by (rule d3(3)[OF k'])
    also have "\<dots> = nib d1 ((k mod (B * C) * A + k div (B * C)) mod (C * A) * B +
                 (k mod (B * C) * A + k div (B * C)) div (C * A))"
      by (rule d2(3)[OF ri(1)])
    also have "\<dots> = nib (data t) k"
      unfolding d1(3)[OF ri(2)] ri(3) ..
    finally show ?thesis .
  qed
  with d3(2) have "d3 = data t" by (intro nib_ext) simp_all
  with d1(1) d2(1) d3(1) assms(1,2) show ?thesis
    by (simp add: transpose_thrice_def)
qed


text \<open>The hypotheses hold for a \<open>[2,2,2]\<close> tensor holding the elements 1 to 8.\<close>

theorem transpose_thrice_identity_witness:
  "transpose_thrice [0, 0, 0, 0] [0, 0, 0, 0] [0, 0, 0, 0]
     \<lparr>element_type = i4, shape = [2, 2, 2], data = [0x21, 0x43, 0x65, 0x87]\<rparr>
   = Inr \<lparr>element_type = i4, shape = [2, 2, 2], data = [0x21, 0x43, 0x65, 0x87]\<rparr>"
  using transpose_thrice_identity
    [of "\<lparr>element_type = i4, shape = [2, 2, 2], data = [0x21, 0x43, 0x65, 0x87]\<rparr>" 2 2 2
        "[0, 0, 0, 0]" "[0, 0, 0, 0]" "[0, 0, 0, 0]"]
  by simp

text \<open>
  Claim C9 as stated (for every 3-D \<open>i4\<close> tensor) fails on the shape \<open>[1,1,3]\<close>: with an odd
  number of columns the rows of the byte addressing \<open>r * COLS / 2 + c / 2\<close> overlap, and
  three transpositions turn the elements \<open>1, 2, 3\<close> into \<open>2, 2, 3\<close>. Every access of
  this run is inside the two-byte buffers.
\<close>

theorem transpose_thrice_odd_counterexample:
  "transpose_thrice [0, 0] [0, 0] [0, 0]
     \<lparr>element_type = i4, shape = [1, 1, 3], data = [0x21, 0x03]\<rparr>
   = Inr \<lparr>element_type = i4, shape = [1, 1, 3], data = [0x22, 0x03]\<rparr>
   \<and> elements \<lparr>element_type = i4, shape = [1, 1, 3], data = [0x21, 0x03]\<rparr> = [1, 2, 3]
   \<and> elements \<lparr>element_type = i4, shape = [1, 1, 3], data = [0x22, 0x03]\<rparr> = [2, 2, 3]"
  by code_simp

subsection \<open>gather\<close>

lemma copy_n_length: "copy_n src soff n dst doff = Inr d \<Longrightarrow> length d = length dst"
  by (auto simp: copy_n_def split: if_splits)

lemma for_each_never_assert:
  assumes "\<And>x s. body x s \<noteq> Inl AssertFailed"
  shows "for_each xs body s \<noteq> Inl AssertFailed"
  using assms by (induction xs arbitrary: s) (auto split: sum.splits)

lemma gather_row_not_assert: "gather_row src idx c r st \<noteq> Inl AssertFailed"
  by (auto simp: gather_row_def copy_n_def Let_def split: sum.splits if_splits)

lemma gather_assert_iff:
  "gather src idx dst = Inl AssertFailed \<longleftrightarrow> \<not> gather_asserts src idx dst"
proof (cases "gather_asserts src idx dst")
  case False
  then show ?thesis unfolding gather_def gather_asserts_def by auto
next
  case True
  have "for_each [0..<shape idx ! 1] (gather_row src idx (shape dst ! 2)) (data dst, 0)
        \<noteq> Inl AssertFailed"
    by (rule for_each_never_assert) (rule gather_row_not_assert)
  with True show ?thesis
    unfolding gather_def gather_asserts_def by (auto split: sum.splits)
qed

lemma gather_loop:
  fixes src :: "byte tensor" and n :: nat
  defines "n \<equiv> shape src ! 1 * type_size (element_type src)"
  assumes "set rs \<subseteq> {..<length (data idx)}"
  shows "for_each rs (gather_row src idx (shape src ! 1)) (d, p) =
     (if (\<forall>r\<in>set rs. src_row_offset (shape src ! 1) (data idx ! r) (type_size (element_type src)) + n
              \<le> length (data src)) \<and> (rs \<noteq> [] \<longrightarrow> p + length rs * n \<le> length d)
      then Inr (take p d @ concat (map (\<lambda>r. src_row src (data idx ! r)) rs)
                  @ drop (p + length rs * n) d, p + length rs * n)
      else Inl OutOfBounds)"
  using assms(2)
proof (induction rs arbitrary: d p)
  case Nil
  then show ?case by simp
next
  case (Cons r rs)
  let ?off = "src_row_offset (shape src ! 1) (data idx ! r) (type_size (element_type src))"
  from Cons.prems have r: "r < length (data idx)" and sub: "set rs \<subseteq> {..<length (data idx)}"
    by simp_all
  show ?case
  proof (cases "?off + n \<le> length (data src) \<and> p + n \<le> length d")
    case False
    then have "gather_row src idx (shape src ! 1) r (d, p) = Inl OutOfBounds"
      using r by (auto simp: gather_row_def copy_n_def Let_def n_def)
    moreover have "\<not> ((\<forall>r\<in>set (r # rs). src_row_offset (shape src ! 1) (data idx ! r) (type_size (element_type src)) + n
              \<le> length (data src)) \<and> (r # rs \<noteq> [] \<longrightarrow> p + length (r # rs) * n \<le> length d))"
      using False by auto
    ultimately show ?thesis by simp
  next
    case True
    let ?d1 = "take p d @ src_row src (data idx ! r) @ drop (p + n) d"
    have rowlen: "length (src_row src (data idx ! r)) = n"
      using True by (auto simp add: src_row_def n_def)
    have step: "gather_row src idx (shape src ! 1) r (d, p) = Inr (?d1, p + n)"
      using r True by (simp add: gather_row_def copy_n_def Let_def n_def src_row_def)
    have len1: "length ?d1 = length d" using True rowlen by simp
    have tk: "take (p + n) ?d1 = take p d @ src_row src (data idx ! r)"
      using True rowlen by simp
    have dr: "drop (p + n + length rs * n) ?d1 = drop (p + n + length rs * n) d"
      using True rowlen by (simp add: ac_simps)
    show ?thesis
      unfolding for_each.simps step sum.case Cons.IH[OF sub] len1 tk dr
      using True by (auto simp: ac_simps)
  qed
qed


lemma prod_list2: "length xs = 2 \<Longrightarrow> prod_list xs = xs ! 0 * xs ! 1" for xs :: "nat list"
  by (cases xs; cases "tl xs") auto

lemma prod_list3: "length xs = 3 \<Longrightarrow> prod_list xs = xs ! 0 * xs ! 1 * xs ! 2" for xs :: "nat list"
  by (cases xs; cases "tl xs"; cases "tl (tl xs)") (auto simp: ac_simps)

lemma src_row_offset_int:
  "int (src_row_offset c w sz) = (sint w * int (c * sz)) mod 2 ^ 64"
proof -
  have eq: "of_nat c * w * of_nat sz = (word_of_int (sint w * int (c * sz)) :: 64 word)"
    by (simp add: ac_simps)
  have "int (unat (word_of_int k :: 64 word)) = k mod 2 ^ 64" for k
    by (simp add: take_bit_eq_mod unsigned_of_int)
  then show ?thesis
    unfolding src_row_offset_def eq .
qed

lemma src_row_offset_nonneg:
  assumes "0 \<le> sint w" "sint w * int (c * sz) < 2 ^ 63"
  shows "src_row_offset c w sz = nat (sint w) * (c * sz)"
proof -
  have "0 \<le> sint w * int (c * sz)" using assms(1) by simp
  moreover have "sint w * int (c * sz) < 2 ^ 64" using assms(2) by simp
  ultimately have "int (src_row_offset c w sz) = sint w * int (c * sz)"
    by (simp add: src_row_offset_int)
  then show ?thesis using assms(1)
    by (metis nat_int nat_mult_distrib)
qed

lemma src_row_offset_neg:
  assumes "sint w < 0" "- sint w * int (c * sz) < 2 ^ 63" "0 < c * sz"
  shows "2 ^ 63 < src_row_offset c w sz"
proof -
  let ?x = "sint w * int (c * sz)"
  have neg: "?x < 0" using assms(1,3) by (simp add: mult_neg_pos)
  have lb: "- (2 ^ 63) < ?x" using assms(2) by simp
  have "(?x + 2 ^ 64) mod 2 ^ 64 = ?x + 2 ^ 64"
    using neg lb by (intro mod_pos_pos_trivial) simp_all
  then have "?x mod 2 ^ 64 = ?x + 2 ^ 64" by simp
  then have "int (src_row_offset c w sz) = ?x + 2 ^ 64"
    by (simp add: src_row_offset_int)
  with lb have "(2 ^ 63 :: int) < int (src_row_offset c w sz)" by simp
  then show ?thesis by simp
qed


lemma row_read_in_range:
  fixes n R :: nat
  assumes n: "n = c * sz" "0 < n" and len: "R * n < 2 ^ 63"
    and nw: "\<bar>sint w\<bar> * int n < 2 ^ 63"
  shows "src_row_offset c w sz + n \<le> R * n \<longleftrightarrow> 0 \<le> sint w \<and> sint w < int R"
proof (cases "0 \<le> sint w")
  case True
  with nw have "sint w * int (c * sz) < 2 ^ 63" by (simp add: n(1))
  from src_row_offset_nonneg[OF True this]
  have off: "src_row_offset c w sz + n = Suc (nat (sint w)) * n" by (simp add: n(1))
  have "Suc (nat (sint w)) * n \<le> R * n \<longleftrightarrow> Suc (nat (sint w)) \<le> R"
    using n(2) unfolding mult_le_cancel2 by simp
  also have "\<dots> \<longleftrightarrow> sint w < int R" using True by auto
  finally show ?thesis using True unfolding off by simp
next
  case False
  then have neg: "sint w < 0" by simp
  with nw have "- sint w * int (c * sz) < 2 ^ 63" by (simp add: n(1))
  from src_row_offset_neg[OF neg this] n
  have "2 ^ 63 < src_row_offset c w sz" by simp
  with len False show ?thesis by simp
qed

text \<open>
  Claim C10, as amended. \<open>gather\<close> fails an assertion exactly when one of the eight
  asserted conditions is false (none of them looks at an index value or at
  \<open>dst_shape[0]\<close> and \<open>dst_shape[1]\<close>). When they hold, on buffers as large as their
  shapes say, with non-empty rows and no \<open>size_t\<close> wrap-around, it copies exactly
  \<open>N = idx_shape[1]\<close> rows to the start of \<open>dst\<close> and every read and write is in bounds
  if and only if \<open>0 \<le> idx[0,r] < src_shape[0]\<close> for every \<open>r < N\<close> and
  \<open>N \<le> dst_shape[0] * dst_shape[1]\<close>; otherwise an access leaves its buffer.
\<close>

theorem gather_in_bounds:
  "(gather src idx dst = Inl AssertFailed \<longleftrightarrow> \<not> gather_asserts src idx dst) \<and>
   (gather_asserts src idx dst \<and> gather_wf src idx dst \<longrightarrow>
      gather src idx dst =
        (if rows_in_range src idx dst
         then Inr (dst\<lparr>data :=
                concat (map (\<lambda>r. src_row src (data idx ! r)) [0..<shape idx ! 1])
                @ drop (shape idx ! 1 * (shape src ! 1 * type_size (element_type src)))
                    (data dst)\<rparr>)
         else Inl OutOfBounds))"
proof (intro conjI impI)
  show "gather src idx dst = Inl AssertFailed \<longleftrightarrow> \<not> gather_asserts src idx dst"
    by (rule gather_assert_iff)
next
  assume a: "gather_asserts src idx dst \<and> gather_wf src idx dst"
  let ?N = "shape idx ! 1"
  let ?sz = "type_size (element_type src)"
  let ?n = "shape src ! 1 * ?sz"
  from a have as: "element_type idx = i64" "element_type src = f16 \<or> element_type src = f32"
    "element_type src = element_type dst" "length (shape idx) = 2" "shape idx ! 0 = 1"
    "length (shape src) = 2" "length (shape dst) = 3" "shape src ! 1 = shape dst ! 2"
    by (auto simp add: gather_asserts_def)
  from a have wf: "dense src" "dense dst" "length (data idx) = prod_list (shape idx)"
    "0 < shape src ! 1" "length (data src) < 2 ^ 63"
    "\<And>r. r < ?N \<Longrightarrow> \<bar>sint (data idx ! r)\<bar> * int ?n < 2 ^ 63"
    by (simp_all add: gather_wf_def)
  have szpos: "0 < ?sz" using as(2) by auto
  have npos: "0 < ?n" using wf(4) szpos by simp
  have lsrc: "length (data src) = shape src ! 0 * ?n"
    using wf(1) as(6) by (simp add: dense_def prod_list2)
  have ldst: "length (data dst) = shape dst ! 0 * shape dst ! 1 * ?n"
    using wf(2) as(7,8,3) by (simp add: dense_def prod_list3)
  have lidx: "length (data idx) = ?N"
    using wf(3) as(4,5) by (simp add: prod_list2)
  have sub: "set [0..<?N] \<subseteq> {..<length (data idx)}" using lidx by auto
  have rd: "(\<forall>r\<in>set [0..<?N]. src_row_offset (shape src ! 1) (data idx ! r) ?sz + ?n
                \<le> length (data src))
            \<longleftrightarrow> (\<forall>r < ?N. 0 \<le> sint (data idx ! r) \<and> sint (data idx ! r) < int (shape src ! 0))"
  proof -
    have "src_row_offset (shape src ! 1) (data idx ! r) ?sz + ?n \<le> shape src ! 0 * ?n
          \<longleftrightarrow> 0 \<le> sint (data idx ! r) \<and> sint (data idx ! r) < int (shape src ! 0)"
      if "r < ?N" for r
      by (rule row_read_in_range[OF refl npos _ wf(6)[OF that]]) (use wf(5) lsrc in simp)
    then show ?thesis unfolding lsrc by auto
  qed
  have wr: "([0..<?N] \<noteq> [] \<longrightarrow> 0 + length [0..<?N] * ?n \<le> length (data dst))
            \<longleftrightarrow> ?N \<le> shape dst ! 0 * shape dst ! 1"
    unfolding ldst using npos by auto
  have loop: "for_each [0..<?N] (gather_row src idx (shape dst ! 2)) (data dst, 0) =
     (if rows_in_range src idx dst
      then Inr (take 0 (data dst) @ concat (map (\<lambda>r. src_row src (data idx ! r)) [0..<?N])
                  @ drop (0 + length [0..<?N] * ?n) (data dst), 0 + length [0..<?N] * ?n)
      else Inl OutOfBounds)"
    unfolding as(8)[symmetric] gather_loop[OF sub] rd wr rows_in_range_def ..
  show "gather src idx dst =
        (if rows_in_range src idx dst
         then Inr (dst\<lparr>data :=
                concat (map (\<lambda>r. src_row src (data idx ! r)) [0..<?N])
                @ drop (?N * ?n) (data dst)\<rparr>)
         else Inl OutOfBounds)"
    using as unfolding gather_def loop by auto
qed

lemma all_less_2: "(\<forall>r<2::nat. P r) \<longleftrightarrow> P 0 \<and> P 1"
  by (auto simp: less_2_cases_iff)

text \<open>Two rows of one \<open>f16\<close> element each, gathered in the order 1, 0.\<close>

theorem gather_in_bounds_witness:
  "gather \<lparr>element_type = f16, shape = [2, 1], data = [1, 2, 3, 4]\<rparr>
          \<lparr>element_type = i64, shape = [1, 2], data = [1, 0]\<rparr>
          \<lparr>element_type = f16, shape = [1, 2, 1], data = [0, 0, 0, 0]\<rparr>
   = Inr \<lparr>element_type = f16, shape = [1, 2, 1], data = [3, 4, 1, 2]\<rparr>"
proof -
  let ?src = "\<lparr>element_type = f16, shape = [2, 1], data = [1, 2, 3, 4 :: byte]\<rparr>"
  let ?idx = "\<lparr>element_type = i64, shape = [1, 2], data = [1, 0 :: 64 word]\<rparr>"
  let ?dst = "\<lparr>element_type = f16, shape = [1, 2, 1], data = [0, 0, 0, 0 :: byte]\<rparr>"
  have a: "gather_asserts ?src ?idx ?dst" by (simp add: gather_asserts_def)
  have w: "gather_wf ?src ?idx ?dst"
    by (simp add: gather_wf_def dense_def all_less_2)
  have r: "rows_in_range ?src ?idx ?dst"
    by (simp add: rows_in_range_def all_less_2)
  have c: "concat (map (\<lambda>r. src_row ?src (data ?idx ! r)) [0..<shape ?idx ! 1])
           @ drop (shape ?idx ! 1 * (shape ?src ! 1 * type_size (element_type ?src))) (data ?dst)
           = [3, 4, 1, 2]"
    by code_simp
  from gather_in_bounds[of ?src ?idx ?dst] a w r
  have "gather ?src ?idx ?dst = Inr (?dst\<lparr>data :=
          concat (map (\<lambda>r. src_row ?src (data ?idx ! r)) [0..<shape ?idx ! 1])
           @ drop (shape ?idx ! 1 * (shape ?src ! 1 * type_size (element_type ?src))) (data ?dst)\<rparr>)"
    by simp
  then show ?thesis unfolding c by simp
qed

text \<open>
  Claim C10 as stated makes \<open>dst_shape[1] \<ge> N\<close> necessary for the accesses to be in
  bounds. \<open>dst_shape[0]\<close> is not asserted to be 1: with \<open>dst\<close> of shape \<open>[2,1,1]\<close> and
  \<open>N = 2\<close> every assertion passes, both rows are copied inside the four bytes of \<open>dst\<close>,
  and \<open>dst_shape[1] = 1 < N\<close>.
\<close>

theorem gather_dst_rows_counterexample:
  "gather \<lparr>element_type = f16, shape = [2, 1], data = [1, 2, 3, 4]\<rparr>
          \<lparr>element_type = i64, shape = [1, 2], data = [1, 0]\<rparr>
          \<lparr>element_type = f16, shape = [2, 1, 1], data = [0, 0, 0, 0]\<rparr>
   = Inr \<lparr>element_type = f16, shape = [2, 1, 1], data = [3, 4, 1, 2]\<rparr>
   \<and> \<not> (shape \<lparr>element_type = i64, shape = [1, 2], data = [1, 0 :: 64 word]\<rparr> ! 1
          \<le> shape \<lparr>element_type = f16, shape = [2, 1, 1], data = [0, 0, 0, 0 :: byte]\<rparr> ! 1)"
  by code_simp

section \<open>Properties of the wiring\<close>

lemma rq_set_tensor_Inr:
  assumes "rq_set_tensor r d p t s = Inr s'"
  obtains rq rq' where "rq_at s r = Inr rq" "set_tensor rq d p t = Inr rq'"
    "s' = emit (SetTensor (rq_id rq) d p t) (rq_put r (Some rq') s)"
  using assms unfolding rq_set_tensor_def throw_def
  by (auto split: sum.splits)

lemma rq_at_Primary:
  "rq_at s (Primary i) = Inr rq \<longleftrightarrow> i < length (subrequests s) \<and> subrequests s ! i = Some rq"
  by (auto simp: rq_at_def rq_slot_def split: option.splits)

lemma set_tensor_get:
  assumes "set_tensor rq d p t = Inr rq'"
  shows "get_tensor rq' d' q = (if d' = d \<and> q = p then Inr t else get_tensor rq d' q)"
    and "rq_id rq' = rq_id rq"
    and "length (rq_in rq') = length (rq_in rq)" and "length (rq_out rq') = length (rq_out rq)"
  using assms unfolding set_tensor_def get_tensor_def
  by (auto split: io.splits if_splits)

lemma rq_set_tensor_frame:
  assumes "rq_set_tensor (Primary i) d p t s = Inr s'"
  shows "compiled_submodels s' = compiled_submodels s"
    and "funcall_result s' = funcall_result s"
    and "submodels_input_to_prev_output s' = submodels_input_to_prev_output s"
    and "length (subrequests s') = length (subrequests s)"
    and "(subrequests s' ! j = None) = (subrequests s ! j = None)"
    and "bound_tensor s' j d' q =
           (if j = i \<and> d' = d \<and> q = p then Some t else bound_tensor s j d' q)"
proof -
  from assms obtain rq rq' where r0: "rq_at s (Primary i) = Inr rq"
    and r3: "set_tensor rq d p t = Inr rq'"
    and r4: "s' = emit (SetTensor (rq_id rq) d p t) (rq_put (Primary i) (Some rq') s)"
    by (rule rq_set_tensor_Inr)
  from r0 have r: "i < length (subrequests s)" "subrequests s ! i = Some rq"
    by (simp_all add: rq_at_Primary)
  show "compiled_submodels s' = compiled_submodels s" "funcall_result s' = funcall_result s"
    "submodels_input_to_prev_output s' = submodels_input_to_prev_output s"
    "length (subrequests s') = length (subrequests s)"
    using r4 by (simp_all add: emit_def rq_put_def)
  have sub: "subrequests s' = (subrequests s)[i := Some rq']"
    using r4 by (simp add: emit_def rq_put_def)
  show "(subrequests s' ! j = None) = (subrequests s ! j = None)"
    unfolding sub using r by (cases "j = i") auto
  show "bound_tensor s' j d' q =
           (if j = i \<and> d' = d \<and> q = p then Some t else bound_tensor s j d' q)"
    unfolding bound_tensor_def sub using r set_tensor_get(1)[OF r3]
    by (cases "j = i") auto
qed

lemma emit_frame:
  "compiled_submodels (emit e s) = compiled_submodels s"
  "funcall_result (emit e s) = funcall_result s"
  "submodels_input_to_prev_output (emit e s) = submodels_input_to_prev_output s"
  "subrequests (emit e s) = subrequests s"
  "bound_tensor (emit e s) j d q = bound_tensor s j d q"
  by (simp_all add: emit_def bound_tensor_def)

lemma connect_link_cases:
  assumes "connect_link kvp s = Inr s'"
  shows "s' = s \<or> s' = emit warn_optimized_out s \<or>
         (\<exists>t. rq_set_tensor (Primary (fst (fst kvp))) In (snd (fst kvp)) t s = Inr s')"
  using assms unfolding connect_link_def Let_def throw_def
  by (auto split: if_splits option.splits sum.splits prod.splits)


lemma connect_link_frame:
  assumes "connect_link kvp s = Inr s'"
  shows "compiled_submodels s' = compiled_submodels s"
    and "funcall_result s' = funcall_result s"
    and "length (subrequests s') = length (subrequests s)"
    and "(subrequests s' ! j = None) = (subrequests s ! j = None)"
    and "bound_tensor s' j Out q = bound_tensor s j Out q"
    and "(j, q) \<noteq> fst kvp \<Longrightarrow> bound_tensor s' j In q = bound_tensor s j In q"
proof -
  from connect_link_cases[OF assms] consider "s' = s" | "s' = emit warn_optimized_out s"
    | t where "rq_set_tensor (Primary (fst (fst kvp))) In (snd (fst kvp)) t s = Inr s'" by blast
  then have "compiled_submodels s' = compiled_submodels s \<and>
    funcall_result s' = funcall_result s \<and>
    length (subrequests s') = length (subrequests s) \<and>
    (subrequests s' ! j = None) = (subrequests s ! j = None) \<and>
    bound_tensor s' j Out q = bound_tensor s j Out q \<and>
    ((j, q) \<noteq> fst kvp \<longrightarrow> bound_tensor s' j In q = bound_tensor s j In q)"
  proof cases
    case 1
    then show ?thesis by simp
  next
    case 2
    then show ?thesis by (simp add: emit_frame)
  next
    case 3
    show ?thesis using rq_set_tensor_frame[OF 3] by (auto simp: prod_eq_iff)
  qed
  then show "compiled_submodels s' = compiled_submodels s"
    and "funcall_result s' = funcall_result s"
    and "length (subrequests s') = length (subrequests s)"
    and "(subrequests s' ! j = None) = (subrequests s ! j = None)"
    and "bound_tensor s' j Out q = bound_tensor s j Out q"
    and "(j, q) \<noteq> fst kvp \<Longrightarrow> bound_tensor s' j In q = bound_tensor s j In q"
    by blast+
qed

lemma wiring_frame:
  assumes "for_each ls connect_link s = Inr s'"
  shows "compiled_submodels s' = compiled_submodels s"
    and "funcall_result s' = funcall_result s"
    and "length (subrequests s') = length (subrequests s)"
    and "(subrequests s' ! j = None) = (subrequests s ! j = None)"
    and "bound_tensor s' j Out q = bound_tensor s j Out q"
    and "(j, q) \<notin> fst ` set ls \<Longrightarrow> bound_tensor s' j In q = bound_tensor s j In q"
proof -
  have "compiled_submodels s' = compiled_submodels s \<and>
    funcall_result s' = funcall_result s \<and>
    length (subrequests s') = length (subrequests s) \<and>
    (subrequests s' ! j = None) = (subrequests s ! j = None) \<and>
    bound_tensor s' j Out q = bound_tensor s j Out q \<and>
    ((j, q) \<notin> fst ` set ls \<longrightarrow> bound_tensor s' j In q = bound_tensor s j In q)"
    using assms
  proof (induction ls arbitrary: s)
    case Nil
    then show ?case by simp
  next
    case (Cons l ls)
    from Cons.prems obtain s1 where s1: "connect_link l s = Inr s1"
      and rest: "for_each ls connect_link s1 = Inr s'"
      by (auto split: sum.splits)
    note f = connect_link_frame[OF s1]
    from Cons.IH[OF rest] f(1,2,3) f(4)[of j] f(5)[of j q] f(6)[of j q] show ?case by auto
  qed
  then show "compiled_submodels s' = compiled_submodels s"
    and "funcall_result s' = funcall_result s"
    and "length (subrequests s') = length (subrequests s)"
    and "(subrequests s' ! j = None) = (subrequests s ! j = None)"
    and "bound_tensor s' j Out q = bound_tensor s j Out q"
    and "(j, q) \<notin> fst ` set ls \<Longrightarrow> bound_tensor s' j In q = bound_tensor s j In q"
    by blast+
qed

text \<open>What one link does, in the two cases in which it binds a tensor.\<close>

lemma connect_link_normal:
  assumes "connect_link ((ci, cp), (pi, pp)) s = Inr s'"
    and "\<not> is_funcall s pi" "\<not> is_funcall s ci"
    and "subrequests s ! pi \<noteq> None" "subrequests s ! ci \<noteq> None"
  shows "bound_tensor s' ci In cp = bound_tensor s pi Out pp \<and> bound_tensor s pi Out pp \<noteq> None"
proof -
  from assms(4,5) obtain rq_from rq_to where rq: "subrequests s ! pi = Some rq_from"
    "subrequests s ! ci = Some rq_to" by auto
  from assms(1,2,3) rq have inb: "pi < length (subrequests s)" "ci < length (subrequests s)"
    "cp < length (rq_in rq_to)" "pp < length (rq_out rq_from)"
    unfolding connect_link_def Let_def throw_def is_funcall_def
    by (auto split: if_splits)
  then have gt: "get_tensor rq_from Out pp = Inr (rq_out rq_from ! pp)"
    by (simp add: get_tensor_def)
  from assms(1,2,3) rq inb gt
  have st: "rq_set_tensor (Primary ci) In cp (rq_out rq_from ! pp) s = Inr s'"
    unfolding connect_link_def Let_def throw_def is_funcall_def
    by (auto split: if_splits)
  have "bound_tensor s pi Out pp = Some (rq_out rq_from ! pp)"
    using rq(1) inb(1) gt by (simp add: bound_tensor_def)
  with rq_set_tensor_frame(6)[OF st, of ci In cp] show ?thesis by simp
qed

lemma connect_link_funcall:
  assumes "connect_link ((ci, cp), (pi, pp)) s = Inr s'"
    and "is_funcall s pi" "\<not> is_funcall s ci"
  shows "bound_tensor s' ci In cp = map_of (funcall_result s) (pi, pp) \<and> map_of (funcall_result s) (pi, pp) \<noteq> None"
proof -
  from assms obtain t where t: "map_of (funcall_result s) (pi, pp) = Some t"
    and st: "rq_set_tensor (Primary ci) In cp t s = Inr s'"
    unfolding connect_link_def Let_def throw_def is_funcall_def
    by (auto split: if_splits option.splits)
  with rq_set_tensor_frame(6)[OF st, of ci In cp] show ?thesis by simp
qed


text \<open>
  Claim C5. After the wiring has completed, for every link of the table (whose keys
  are distinct, as those of a \<open>std::map\<close> are): when neither end is a function call
  and both subrequests exist, the consumer's input port holds the very tensor handle
  the producer holds at its output port; when the producer is a function call and the
  consumer is not, the consumer's input port holds the preallocated tensor
  \<open>funcall_result[(from, from_port)]\<close>.
\<close>

theorem wiring_binds_links:
  assumes "connect_subrequests s = Inr s'"
    and "distinct (map fst (submodels_input_to_prev_output s))"
    and "((ci, cp), (pi, pp)) \<in> set (submodels_input_to_prev_output s)"
  shows "(\<not> is_funcall s pi \<and> \<not> is_funcall s ci \<and>
          subrequests s' ! pi \<noteq> None \<and> subrequests s' ! ci \<noteq> None \<longrightarrow>
            bound_tensor s' ci In cp \<noteq> None \<and>
            bound_tensor s' ci In cp = bound_tensor s' pi Out pp) \<and>
         (is_funcall s pi \<and> \<not> is_funcall s ci \<longrightarrow>
            bound_tensor s' ci In cp \<noteq> None \<and>
            bound_tensor s' ci In cp = map_of (funcall_result s') (pi, pp))"
proof -
  have "for_each ls connect_link s = Inr s' \<Longrightarrow> distinct (map fst ls) \<Longrightarrow>
        ((ci, cp), (pi, pp)) \<in> set ls \<Longrightarrow> ?thesis" for ls
  proof (induction ls arbitrary: s)
    case Nil
    then show ?case by simp
  next
    case (Cons l ls)
    from Cons.prems(1) obtain s1 where s1: "connect_link l s = Inr s1"
      and rest: "for_each ls connect_link s1 = Inr s'"
      by (auto split: sum.splits)
    note f1 = connect_link_frame[OF s1]
    note fr = wiring_frame[OF rest]
    have fun_eq: "is_funcall s1 j = is_funcall s j" for j
      using f1(1) by (simp add: is_funcall_def)
    show ?case
    proof (cases "l = ((ci, cp), (pi, pp))")
      case True
      with Cons.prems(2) have notin: "(ci, cp) \<notin> fst ` set ls" by simp
      have keep: "bound_tensor s' ci In cp = bound_tensor s1 ci In cp"
        by (rule fr(6)[OF notin])
      have out: "bound_tensor s' pi Out pp = bound_tensor s pi Out pp"
        using fr(5)[of pi pp] f1(5)[of pi pp] by simp
      have null: "(subrequests s' ! j = None) = (subrequests s ! j = None)" for j
        using fr(4)[of j] f1(4)[of j] by simp
      have res: "funcall_result s' = funcall_result s" using fr(2) f1(2) by simp
      show ?thesis
        using connect_link_normal[OF s1[unfolded True]] connect_link_funcall[OF s1[unfolded True]]
        unfolding keep out null res by auto
    next
      case False
      with Cons.prems(2,3) have "distinct (map fst ls)" "((ci, cp), (pi, pp)) \<in> set ls"
        by auto
      from Cons.IH[OF rest this] show ?thesis unfolding fun_eq .
    qed
  qed
  from this[OF assms(1)[unfolded connect_subrequests_def] assms(2,3)] show ?thesis .
qed


text \<open>The wiring of \<open>wiring_example\<close> completes and binds both inputs of subgraph 2.\<close>

lemma wiring_example_run:
  "connect_subrequests wiring_example = Inr (wiring_example
     \<lparr>subrequests := [Some (rq_1_1 0), Some (rq_1_1 1),
                      Some ((rq_1_1 2)\<lparr>rq_in := [dense_tensor (OfRequest 0 Out 0) f16 [1, 4],
                                                dense_tensor (Allocated 7) f16 [1, 4]]\<rparr>)],
      events := [SetTensor 2 In 0 (dense_tensor (OfRequest 0 Out 0) f16 [1, 4]),
                 SetTensor 2 In 1 (dense_tensor (Allocated 7) f16 [1, 4])]\<rparr>)"
  by code_simp

theorem wiring_binds_links_witness:
  "bound_tensor (wiring_example
     \<lparr>subrequests := [Some (rq_1_1 0), Some (rq_1_1 1),
                      Some ((rq_1_1 2)\<lparr>rq_in := [dense_tensor (OfRequest 0 Out 0) f16 [1, 4],
                                                dense_tensor (Allocated 7) f16 [1, 4]]\<rparr>)],
      events := [SetTensor 2 In 0 (dense_tensor (OfRequest 0 Out 0) f16 [1, 4]),
                 SetTensor 2 In 1 (dense_tensor (Allocated 7) f16 [1, 4])]\<rparr>) 2 In 0
   = Some (dense_tensor (OfRequest 0 Out 0) f16 [1, 4])"
proof -
  have d: "distinct (map fst (submodels_input_to_prev_output wiring_example))"
    by (simp add: wiring_example_def)
  have m: "((2, 0), (0, 0)) \<in> set (submodels_input_to_prev_output wiring_example)"
    by (simp add: wiring_example_def)
  have c: "\<not> is_funcall wiring_example 0" "\<not> is_funcall wiring_example 2"
    by (simp_all add: wiring_example_def is_funcall_def normal_desc_def empty_desc_def)
  from wiring_binds_links[OF wiring_example_run d m] c
  show ?thesis
    by (simp add: bound_tensor_def get_tensor_def rq_1_1_def)
qed

lemma no_wiring_with_fatal_link:
  assumes "for_each ls connect_link s = Inr s'" "((ci, cp), (pi, pp)) \<in> set ls"
    and "pi < length (compiled_submodels s)" "ci < length (compiled_submodels s)"
    and "pi < length (subrequests s)" "ci < length (subrequests s)"
    and "\<not> is_funcall s pi" "\<not> is_funcall s ci"
    and "subrequests s ! pi = None" "subrequests s ! ci \<noteq> None"
  shows False
  using assms
proof (induction ls arbitrary: s)
  case Nil
  then show ?case by simp
next
  case (Cons l ls)
  from Cons.prems(1) obtain s1 where s1: "connect_link l s = Inr s1"
    and rest: "for_each ls connect_link s1 = Inr s'"
    by (auto split: sum.splits)
  show ?case
  proof (cases "l = ((ci, cp), (pi, pp))")
    case True
    with s1 Cons.prems(3-10) show False
      unfolding connect_link_def Let_def throw_def is_funcall_def by (auto split: if_splits)
  next
    case False
    with Cons.prems(2) have mem: "((ci, cp), (pi, pp)) \<in> set ls" by simp
    note f = connect_link_frame[OF s1]
    show False
      by (rule Cons.IH[OF rest mem])
        (use Cons.prems(3-10) f(1,3) f(4)[of pi] f(4)[of ci] in \<open>simp_all add: is_funcall_def\<close>)
  qed
qed

text \<open>
  Claim C4, as amended. For a link of the table between two subgraphs that are not
  function calls: when the producer has no subrequest and the consumer has one, the
  link throws the fatal error that names both subgraphs, and no wiring of a table with
  such a link completes; when the consumer has no subrequest the link is skipped, the
  only effect being the warning.
\<close>

theorem wiring_optimized_out_links:
  assumes "((ci, cp), (pi, pp)) \<in> set (submodels_input_to_prev_output s)"
    and "pi < length (compiled_submodels s)" "ci < length (compiled_submodels s)"
    and "pi < length (subrequests s)" "ci < length (subrequests s)"
    and "\<not> is_funcall s pi" "\<not> is_funcall s ci"
  shows "(subrequests s ! pi = None \<and> subrequests s ! ci \<noteq> None \<longrightarrow>
            connect_link ((ci, cp), (pi, pp)) s = Inl (FatalOptimizedOut pi ci, s) \<and>
            (\<forall>s'. connect_subrequests s \<noteq> Inr s')) \<and>
         (subrequests s ! ci = None \<longrightarrow>
            connect_link ((ci, cp), (pi, pp)) s = Inr (emit warn_optimized_out s))"
proof (intro conjI impI allI)
  assume a: "subrequests s ! pi = None \<and> subrequests s ! ci \<noteq> None"
  with assms(2-7) show "connect_link ((ci, cp), (pi, pp)) s = Inl (FatalOptimizedOut pi ci, s)"
    unfolding connect_link_def Let_def throw_def is_funcall_def by auto
  fix s'
  show "connect_subrequests s \<noteq> Inr s'"
  proof
    assume "connect_subrequests s = Inr s'"
    then have "for_each (submodels_input_to_prev_output s) connect_link s = Inr s'"
      by (simp add: connect_subrequests_def)
    from no_wiring_with_fatal_link[OF this assms] a show False by simp
  qed
next
  assume "subrequests s ! ci = None"
  with assms(2-7) show "connect_link ((ci, cp), (pi, pp)) s = Inr (emit warn_optimized_out s)"
    unfolding connect_link_def Let_def throw_def is_funcall_def by auto
qed

theorem wiring_optimized_out_links_witness:
  "connect_link ((1, 0), (0, 0)) wiring_fatal_example
     = Inl (FatalOptimizedOut 0 1, wiring_fatal_example) \<and>
   connect_link ((1, 0), (0, 0)) wiring_warn_example
     = Inr (emit warn_optimized_out wiring_warn_example)"
proof -
  have f: "\<not> is_funcall wiring_fatal_example 0" "\<not> is_funcall wiring_fatal_example 1"
    "\<not> is_funcall wiring_warn_example 0" "\<not> is_funcall wiring_warn_example 1"
    by (simp_all add: wiring_fatal_example_def wiring_warn_example_def is_funcall_def
          normal_desc_def empty_desc_def)
  have "connect_link ((1, 0), (0, 0)) wiring_fatal_example
     = Inl (FatalOptimizedOut 0 1, wiring_fatal_example)"
    using wiring_optimized_out_links[of 1 0 0 0 wiring_fatal_example] f(1,2)
    by (simp add: wiring_fatal_example_def)
  moreover have "connect_link ((1, 0), (0, 0)) wiring_warn_example
     = Inr (emit warn_optimized_out wiring_warn_example)"
    using wiring_optimized_out_links[of 1 0 0 0 wiring_warn_example] f(3,4)
    by (simp add: wiring_warn_example_def)
  ultimately show ?thesis by simp
qed

text \<open>
  Claim C4 as stated fails when an end of the link is a function call, which the
  wiring looks at first. An optimized-out producer whose consumer is a function body
  with a subrequest is skipped silently and the wiring completes unchanged; an
  optimized-out consumer whose producer is a function call is dereferenced.
\<close>

theorem wiring_optimized_out_counterexample:
  "optimized_out wiring_skipped_example 0 \<and>
   subrequests wiring_skipped_example ! 0 = None \<and>
   subrequests wiring_skipped_example ! 1 = Some (rq_1_1 1) \<and>
   connect_subrequests wiring_skipped_example = Inr wiring_skipped_example \<and>
   optimized_out wiring_null_example 1 \<and>
   subrequests wiring_null_example ! 1 = None \<and>
   connect_subrequests wiring_null_example = Inl (NullDeref, wiring_null_example)"
  by code_simp

section \<open>Properties of the closure unpacker\<close>

lemma emit_emits: "emit e s = emits [e] s"
  by (simp add: emit_def emits_def)

lemma emits_emits: "emits evs (emits evs' s) = emits (evs' @ evs) s"
  by (simp add: emits_def)

lemma emits_Nil: "emits [] s = s"
  by (simp add: emits_def)

lemma rq_slot_emits: "rq_slot (emits evs s) r = rq_slot s r"
  by (simp add: rq_slot_def emits_def split: rq_ref.splits)

lemma rq_at_emits: "rq_at (emits evs s) r = rq_at s r"
  by (simp add: rq_at_def rq_slot_emits)

lemma rq_put_emits: "rq_put r v (emits evs s) = emits evs (rq_put r v s)"
  by (simp add: rq_put_def emits_def split: rq_ref.splits)

lemma rq_put_rq_put: "rq_put r v (rq_put r w s) = rq_put r v s"
proof (cases r)
  case (Primary i)
  then show ?thesis by (simp add: rq_put_def)
next
  case (Reserve i)
  then show ?thesis
    by (cases "i < length (funcall_pipeline s)") (simp_all add: rq_put_def list_update_beyond)
qed

lemma rq_at_rq_put:
  assumes "rq_at s r = Inr rq"
  shows "rq_at (rq_put r (Some rq') s) r = Inr rq'"
  using assms
  by (cases r) (auto simp: rq_at_def rq_slot_def rq_put_def split: if_splits option.splits)

lemma rq_put_same:
  assumes "rq_at s r = Inr rq"
  shows "rq_put r (Some rq) s = s"
  using assms
  by (cases r) (auto simp: rq_at_def rq_slot_def rq_put_def list_update_same_conv
      split: if_splits option.splits)

lemma fields_emits [simp]:
  "compiled_submodels (emits evs s) = compiled_submodels s"
  "subrequest_devices (emits evs s) = subrequest_devices s"
  "copy_devices (emits evs s) = copy_devices s"
  "events (emits evs s) = events s @ evs"
  by (simp_all add: emits_def)

lemma fields_rq_put [simp]:
  "compiled_submodels (rq_put r v s) = compiled_submodels s"
  "subrequest_devices (rq_put r v s) = subrequest_devices s"
  "copy_devices (rq_put r v s) = copy_devices s"
  "events (rq_put r v s) = events s"
  by (cases r; simp add: rq_put_def)+

lemma real_frame [simp]: "real (emits evs s) = real s" "real (rq_put r v s) = real s"
  by (simp_all add: real_def fun_eq_iff)

lemma needs_copy_frame [simp]:
  "needs_copy (emits evs s) i = needs_copy s i" "needs_copy (rq_put r v s) i = needs_copy s i"
  by (simp_all add: needs_copy_def)

lemma closure_port_frame [simp]:
  "closure_port (emits evs s) = closure_port s" "closure_port (rq_put r v s) = closure_port s"
  by (auto simp: closure_port_def fun_eq_iff Let_def split: option.splits)

lemma rq_get_tensor_emits [simp]: "rq_get_tensor (emits evs s) = rq_get_tensor s"
  by (simp add: rq_get_tensor_def rq_at_emits fun_eq_iff)

lemma rq_set_tensor_In:
  assumes "rq_at s r = Inr rq" "p < length (rq_in rq)"
  shows "rq_set_tensor r In p t s =
           Inr (emits [SetTensor (rq_id rq) In p t] (rq_put r (Some (rq\<lparr>rq_in := (rq_in rq)[p := t]\<rparr>)) s))"
  using assms by (simp add: rq_set_tensor_def set_tensor_def emit_emits)

lemma rq_get_tensor_In:
  assumes "rq_at s r = Inr rq" "p < length (rq_in rq)"
  shows "rq_get_tensor s r In p = Inr (rq_in rq ! p)"
  using assms by (simp add: rq_get_tensor_def and_then_def get_tensor_def)


lemma closure_wf_step:
  assumes "closure_wf s i real_idx request rq" "length ts = length (rq_in rq)"
  shows "closure_wf (emits evs (rq_put request (Some (rq\<lparr>rq_in := ts\<rparr>)) s)) i real_idx request
           (rq\<lparr>rq_in := ts\<rparr>)"
  using assms unfolding closure_wf_def
  by (auto simp: rq_at_emits rq_at_rq_put)

lemma closure_wf_emits:
  assumes "closure_wf s i real_idx request rq"
  shows "closure_wf (emits evs s) i real_idx request rq"
  using assms unfolding closure_wf_def by (auto simp: rq_at_emits)

lemma closure_wf_port:
  assumes "closure_wf s i real_idx request rq" "c < length (closure (compiled_submodels s ! i))"
  shows "closure_port s i real_idx c = Inr (param_base (compiled_submodels s ! i) + c)"
    and "rq_get_tensor s request In (param_base (compiled_submodels s ! i) + c)
           = Inr (rq_in rq ! (param_base (compiled_submodels s ! i) + c))"
    and "param_base (compiled_submodels s ! i) + c < length (rq_in rq)"
    and "c < length (update_required (compiled_submodels s ! i))"
    and "rq_at s request = Inr rq"
proof -
  from assms show p: "param_base (compiled_submodels s ! i) + c < length (rq_in rq)"
    and "c < length (update_required (compiled_submodels s ! i))"
    and r: "rq_at s request = Inr rq"
    unfolding closure_wf_def by auto
  from assms show "closure_port s i real_idx c = Inr (param_base (compiled_submodels s ! i) + c)"
    unfolding closure_wf_def closure_port_def by (auto simp: Let_def)
  show "rq_get_tensor s request In (param_base (compiled_submodels s ! i) + c)
           = Inr (rq_in rq ! (param_base (compiled_submodels s ! i) + c))"
    by (rule rq_get_tensor_In[OF r p])
qed

lemma classify_closure_step:
  assumes wf: "closure_wf s i real_idx request rq"
    and c: "c < length (closure (compiled_submodels s ! i))"
    and d: "d = compiled_submodels s ! i"
    and a: "a = closure_rule d (needs_copy s i) (elem (rq_in rq ! (param_base d + c))) c"
  shows "classify_closure i real_idx request c (u, cp, s) =
     Inr (if is_unpack a then u @ [c] else u,
          if a = CopyInto then cp @ [c] else cp,
          if a = Rebind
          then emits [rebind_event d (rq_id rq) c]
                 (rq_put request (Some (rq\<lparr>rq_in := (rq_in rq)[param_base d + c := closure d ! c]\<rparr>)) s)
          else s)"
proof -
  note p = closure_wf_port[OF wf c, folded d]
  show ?thesis
    unfolding classify_closure_def Let_def fst_conv snd_conv d[symmetric] p(1) p(2) sum.case
    using p(3,4) rq_set_tensor_In[OF p(5) p(3)]
    by (auto simp: a closure_rule_def is_unpack_def rebind_event_def)
qed


lemma length_rebound [simp]: "length (rebound d rule cs ts) = length ts"
  by (induction cs arbitrary: ts) simp_all

lemma classify_loop:
  assumes "closure_wf s i real_idx request rq"
    and "set cs \<subseteq> {..<length (closure d)}"
    and "d = compiled_submodels s ! i"
    and "map elem (rq_in rq) = T" and "needs_copy s i = copy"
  shows "for_each cs (classify_closure i real_idx request) (u, cp, s) =
     Inr (u @ filter (\<lambda>c. is_unpack (closure_rule d copy (T ! (param_base d + c)) c)) cs,
          cp @ filter (\<lambda>c. closure_rule d copy (T ! (param_base d + c)) c = CopyInto) cs,
          emits (map (rebind_event d (rq_id rq))
                   (filter (\<lambda>c. closure_rule d copy (T ! (param_base d + c)) c = Rebind) cs))
            (rq_put request
               (Some (rq\<lparr>rq_in := rebound d (\<lambda>c. closure_rule d copy (T ! (param_base d + c)) c) cs
                                      (rq_in rq)\<rparr>)) s))"
  using assms
proof (induction cs arbitrary: u cp s rq)
  case Nil
  from Nil.prems(1) have "rq_at s request = Inr rq" by (simp add: closure_wf_def)
  then show ?case by (simp add: emits_Nil rq_put_same)
next
  case (Cons c cs)
  let ?rule = "\<lambda>c. closure_rule d copy (T ! (param_base d + c)) c"
  from Cons.prems(2) have c: "c < length (closure (compiled_submodels s ! i))"
    and sub: "set cs \<subseteq> {..<length (closure d)}"
    by (simp_all add: Cons.prems(3))
  note p = closure_wf_port[OF Cons.prems(1) c, folded Cons.prems(3)]
  have Tc: "T ! (param_base d + c) = elem (rq_in rq ! (param_base d + c))"
    using p(3) Cons.prems(4)[symmetric] by simp
  have a: "?rule c = closure_rule d (needs_copy s i) (elem (rq_in rq ! (param_base d + c))) c"
    by (simp add: Tc Cons.prems(5))
  note step = classify_closure_step[OF Cons.prems(1) c Cons.prems(3) a, of u cp]
  show ?case
  proof (cases "?rule c = Rebind")
    case False
    have "for_each (c # cs) (classify_closure i real_idx request) (u, cp, s) =
          for_each cs (classify_closure i real_idx request)
            (if is_unpack (?rule c) then u @ [c] else u,
             if ?rule c = CopyInto then cp @ [c] else cp, s)"
      unfolding for_each.simps step using False by simp
    also note Cons.IH[OF Cons.prems(1) sub Cons.prems(3,4,5)]
    finally show ?thesis using False by (auto simp: is_unpack_def)
  next
    case True
    let ?ts = "(rq_in rq)[param_base d + c := closure d ! c]"
    let ?rq1 = "rq\<lparr>rq_in := ?ts\<rparr>"
    let ?s1 = "emits [rebind_event d (rq_id rq) c] (rq_put request (Some ?rq1) s)"
    have wf1: "closure_wf ?s1 i real_idx request ?rq1"
      by (rule closure_wf_step[OF Cons.prems(1)]) simp
    have d1: "d = compiled_submodels ?s1 ! i" using Cons.prems(3) by simp
    have "elem (closure d ! c) = elem (rq_in rq ! (param_base d + c))"
      using True unfolding closure_rule_def Tc by (auto split: if_splits)
    then have T1: "map elem (rq_in ?rq1) = T"
      using Cons.prems(4) p(3)
      by (simp add: map_update) (metis list_update_id map_update nth_map)
    have nc1: "needs_copy ?s1 i = copy" using Cons.prems(5) by simp
    have not_unpack: "\<not> is_unpack (?rule c)" "?rule c \<noteq> CopyInto"
      using True by (simp_all add: is_unpack_def)
    have "for_each (c # cs) (classify_closure i real_idx request) (u, cp, s) =
          for_each cs (classify_closure i real_idx request) (u, cp, ?s1)"
      unfolding for_each.simps step using True not_unpack by simp
    also note Cons.IH[OF wf1 sub d1 T1 nc1]
    finally show ?thesis
      using True not_unpack
      by (simp add: rq_put_emits rq_put_rq_put emits_emits)
  qed
qed

lemma copy_loop:
  assumes "closure_wf s i real_idx request rq"
    and "set cs \<subseteq> {..<length (closure d)}"
    and "d = compiled_submodels s ! i"
  shows "for_each cs (copy_closure i real_idx request) s =
           Inr (emits (map (copy_event d (rq_in rq)) cs) s)"
  using assms
proof (induction cs arbitrary: s)
  case Nil
  then show ?case by (simp add: emits_Nil)
next
  case (Cons c cs)
  from Cons.prems(2) have c: "c < length (closure (compiled_submodels s ! i))"
    and sub: "set cs \<subseteq> {..<length (closure d)}"
    by (simp_all add: Cons.prems(3))
  note p = closure_wf_port[OF Cons.prems(1) c, folded Cons.prems(3)]
  have step: "copy_closure i real_idx request c s = Inr (emits [copy_event d (rq_in rq) c] s)"
    unfolding copy_closure_def Let_def Cons.prems(3)[symmetric] p(1,2) sum.case
    by (simp add: emit_emits copy_event_def)
  have d1: "d = compiled_submodels (emits [copy_event d (rq_in rq) c] s) ! i"
    using Cons.prems(3) by simp
  show ?case
    unfolding for_each.simps step sum.case
      Cons.IH[OF closure_wf_emits[OF Cons.prems(1)] sub d1]
    by (simp add: emits_emits)
qed

lemma unpack_loop:
  assumes "closure_wf s i real_idx request rq"
    and "set cs \<subseteq> {..<length (closure d)}"
    and "d = compiled_submodels s ! i"
  shows "for_each cs (unpack_one i real_idx request) s =
           Inr (emits (map (\<lambda>c. unpack_event d (rq_in rq) (kernel_of d c) c) cs) s)"
  using assms
proof (induction cs arbitrary: s)
  case Nil
  then show ?case by (simp add: emits_Nil)
next
  case (Cons c cs)
  from Cons.prems(2) have c: "c < length (closure (compiled_submodels s ! i))"
    and sub: "set cs \<subseteq> {..<length (closure d)}"
    by (simp_all add: Cons.prems(3))
  note p = closure_wf_port[OF Cons.prems(1) c, folded Cons.prems(3)]
  from Cons.prems(1,3) c have sc: "scales d = [] \<or>
      c < length (scales d) \<and> c < length (zerops d)"
    unfolding closure_wf_def by auto
  have step: "unpack_one i real_idx request c s =
                Inr (emits [unpack_event d (rq_in rq) (kernel_of d c) c] s)"
    unfolding unpack_one_def Let_def Cons.prems(3)[symmetric] p(1,2) sum.case
    using sc
    by (auto simp: emit_emits unpack_event_def kernel_of_def has_tensor_def split: option.splits)
  have d1: "d = compiled_submodels (emits [unpack_event d (rq_in rq) (kernel_of d c) c] s) ! i"
    using Cons.prems(3) by simp
  show ?case
    unfolding for_each.simps step sum.case
      Cons.IH[OF closure_wf_emits[OF Cons.prems(1)] sub d1]
    by (simp add: emits_emits)
qed


lemma rebound_nth:
  assumes "q < length ts"
  shows "rebound d rule cs ts ! q =
           (if \<exists>c\<in>set cs. rule c = Rebind \<and> param_base d + c = q
            then closure d ! (q - param_base d) else ts ! q)"
  using assms
proof (induction cs arbitrary: ts)
  case Nil
  then show ?case by simp
next
  case (Cons c cs)
  show ?case
  proof (cases "rule c = Rebind")
    case False
    with Cons.IH[OF Cons.prems] show ?thesis by auto
  next
    case True
    have "q < length (ts[param_base d + c := closure d ! c])" using Cons.prems by simp
    from Cons.IH[OF this] True Cons.prems show ?thesis
      by (auto simp: nth_list_update)
  qed
qed

lemma kernel_of_rule:
  assumes "is_unpack (closure_rule d copy t c)"
  shows "closure_rule d copy t c = kernel_of d c"
  using assms unfolding closure_rule_def kernel_of_def is_unpack_def
  by (auto split: if_splits)

lemma unpack_closure_result:
  assumes "closure_wf s i real_idx request rq"
  shows "unpack_closure i request s =
           Inr (emits (closure_calls (compiled_submodels s ! i) (needs_copy s i) rq)
                  (rq_put request
                     (Some (closure_bindings (compiled_submodels s ! i) (needs_copy s i) rq)) s))"
proof -
  define d where "d = compiled_submodels s ! i"
  define copy where "copy = needs_copy s i"
  define n where "n = length (closure d)"
  define T where "T = map elem (rq_in rq)"
  define rule where "rule = (\<lambda>c. closure_rule d copy (elem (rq_in rq ! (param_base d + c))) c)"
  define rq' where "rq' = closure_bindings d copy rq"
  from assms have idx: "i < length (compiled_submodels s)"
    "replaced_by (compiled_submodels s ! i) = Some real_idx"
    "real_idx < length (compiled_submodels s)"
    and plen: "param_base d + n \<le> length (rq_in rq)"
    unfolding closure_wf_def d_def n_def by auto
  have sub: "set [0..<n] \<subseteq> {..<length (closure d)}" by (auto simp: n_def)
  have subf: "set (filter P [0..<n]) \<subseteq> {..<length (closure d)}" for P
    by (auto simp: n_def)
  have ruleT: "closure_rule d copy (T ! (param_base d + c)) c = rule c" if "c \<in> set [0..<n]" for c
    using that plen by (simp add: T_def rule_def)
  have fT: "filter (\<lambda>c. P (closure_rule d copy (T ! (param_base d + c)) c)) [0..<n]
            = filter (\<lambda>c. P (rule c)) [0..<n]" for P
    by (rule filter_cong[OF refl]) (simp add: ruleT)
  have rebT: "rebound d (\<lambda>c. closure_rule d copy (T ! (param_base d + c)) c) cs ts
              = rebound d rule cs ts" if "set cs \<subseteq> set [0..<n]" for cs ts
    using that by (induction cs arbitrary: ts) (simp_all add: ruleT)
  let ?rebinds = "map (rebind_event d (rq_id rq)) (filter (\<lambda>c. rule c = Rebind) [0..<n])"
  let ?s1 = "emits ?rebinds (rq_put request (Some rq') s)"
  have rq'_def': "rq' = rq\<lparr>rq_in := rebound d rule [0..<n] (rq_in rq)\<rparr>"
    by (simp add: rq'_def closure_bindings_def rule_def n_def)
  have loop1: "for_each [0..<n] (classify_closure i real_idx request) ([], [], s) =
     Inr (filter (\<lambda>c. is_unpack (rule c)) [0..<n], filter (\<lambda>c. rule c = CopyInto) [0..<n], ?s1)"
    using classify_loop[OF assms sub d_def T_def[symmetric] copy_def[symmetric], of "[]" "[]"]
    unfolding fT[of "\<lambda>a. is_unpack a"] fT[of "\<lambda>a. a = CopyInto"] fT[of "\<lambda>a. a = Rebind"]
      rebT[OF subset_refl] rq'_def'
    by simp
  have wf1: "closure_wf ?s1 i real_idx request rq'"
    unfolding rq'_def' by (rule closure_wf_step[OF assms]) simp
  have d1: "d = compiled_submodels ?s1 ! i" by (simp add: d_def)
  have keep: "rq_in rq' ! (param_base d + c) = rq_in rq ! (param_base d + c)"
    if "c < n" "rule c \<noteq> Rebind" for c
  proof -
    have "param_base d + c < length (rq_in rq)" using that(1) plen by simp
    from rebound_nth[OF this, of d rule "[0..<n]"] that(2) show ?thesis
      by (auto simp: rq'_def')
  qed
  let ?copies = "map (copy_event d (rq_in rq)) (filter (\<lambda>c. rule c = CopyInto) [0..<n])"
  have copies_eq: "map (copy_event d (rq_in rq')) (filter (\<lambda>c. rule c = CopyInto) [0..<n]) = ?copies"
    by (rule map_cong[OF refl]) (auto simp: copy_event_def keep)
  have loop2: "for_each (filter (\<lambda>c. rule c = CopyInto) [0..<n]) (copy_closure i real_idx request) ?s1
               = Inr (emits ?copies ?s1)"
    using copy_loop[OF wf1 subf d1, of "\<lambda>c. rule c = CopyInto"]
    unfolding copies_eq .
  let ?s2 = "emits ?copies ?s1"
  let ?unpacks = "map (\<lambda>c. unpack_event d (rq_in rq) (rule c) c) (filter (\<lambda>c. is_unpack (rule c)) [0..<n])"
  have unpacks_eq: "map (\<lambda>c. unpack_event d (rq_in rq') (kernel_of d c) c)
                      (filter (\<lambda>c. is_unpack (rule c)) [0..<n]) = ?unpacks"
  proof (rule map_cong[OF refl])
    fix c assume "c \<in> set (filter (\<lambda>c. is_unpack (rule c)) [0..<n])"
    then have c: "c < n" "is_unpack (rule c)" by auto
    then have nr: "rule c \<noteq> Rebind" by (auto simp: is_unpack_def)
    have k: "rule c = kernel_of d c" using c(2) unfolding rule_def by (rule kernel_of_rule)
    show "unpack_event d (rq_in rq') (kernel_of d c) c = unpack_event d (rq_in rq) (rule c) c"
      unfolding k[symmetric] using keep[OF c(1) nr]
      by (simp add: unpack_event_def split: closure_action.splits)
  qed
  have d2: "d = compiled_submodels ?s2 ! i" by (simp add: d_def)
  have loop3: "for_each (filter (\<lambda>c. is_unpack (rule c)) [0..<n]) (unpack_one i real_idx request) ?s2
               = Inr (emits ?unpacks ?s2)"
    using unpack_loop[OF closure_wf_emits[OF wf1] subf d2, of "\<lambda>c. is_unpack (rule c)"]
    unfolding unpacks_eq .
  have calls: "closure_calls d copy rq = ?rebinds @ ?copies @ ?unpacks"
    by (simp add: closure_calls_def Let_def rule_def n_def)
  have "unpack_closure i request s = Inr (emits ?unpacks ?s2)"
    unfolding unpack_closure_def using idx
    by (simp add: d_def[symmetric] n_def[symmetric] loop1 and_then_def loop2 loop3)
  then show ?thesis
    unfolding d_def[symmetric] copy_def[symmetric] rq'_def[symmetric] calls
    by (simp add: emits_emits)
qed

text \<open>
  Claim C3. With the call and its body in the table and a request that has a port for
  every closure, \<open>unpack_closure\<close> completes, and what it did is what the rules say for
  each closure index: the rebinds, then the copies, then the unpacks (with the kernel
  chosen by the presence of the scale and the zero point), each into the tensor the
  request holds at the closure's port; closures the rules skip are not touched. The
  copies, which the code hands to a parallel loop, are in the order of the indices here.
\<close>

theorem unpack_closure_follows_rules:
  assumes "closure_wf s i real_idx request rq"
  shows "unpack_closure i request s =
           Inr (emits (closure_calls (compiled_submodels s ! i) (needs_copy s i) rq)
                  (rq_put request
                     (Some (closure_bindings (compiled_submodels s ! i) (needs_copy s i) rq)) s))"
  using assms by (rule unpack_closure_result)

theorem unpack_closure_follows_rules_witness:
  "unpack_closure 0 (Primary 0) closure_example =
     Inr (closure_example
       \<lparr>subrequests := [Some ((rq_4_1 0)\<lparr>rq_in :=
            [dense_tensor (OfRequest 0 In 0) f16 [1, 4], dense_tensor (OfRequest 0 In 1) f16 [1, 4],
             dense_tensor (Allocated 2) f16 [1, 4], dense_tensor (OfRequest 0 In 3) f16 [1, 4]]\<rparr>)],
        events := [SetTensor 0 In 2 (dense_tensor (Allocated 2) f16 [1, 4]),
                   Unpack2 (dense_tensor (Allocated 1) i4 [1, 4]) (dense_tensor (Allocated 5) i4 [1, 1])
                     (dense_tensor (Allocated 4) f16 [1, 1]) (dense_tensor (OfRequest 0 In 1) f16 [1, 4])]\<rparr>)"
proof -
  have wf: "closure_wf closure_example 0 0 (Primary 0) (rq_4_1 0)"
    by (simp add: closure_wf_def closure_example_def closure_desc_def empty_desc_def
        empty_state_def rq_at_def rq_slot_def cm_4_1_def rq_4_1_def)
  have "emits (closure_calls (compiled_submodels closure_example ! 0) (needs_copy closure_example 0)
                 (rq_4_1 0))
          (rq_put (Primary 0)
             (Some (closure_bindings (compiled_submodels closure_example ! 0)
                      (needs_copy closure_example 0) (rq_4_1 0))) closure_example) =
        closure_example
       \<lparr>subrequests := [Some ((rq_4_1 0)\<lparr>rq_in :=
            [dense_tensor (OfRequest 0 In 0) f16 [1, 4], dense_tensor (OfRequest 0 In 1) f16 [1, 4],
             dense_tensor (Allocated 2) f16 [1, 4], dense_tensor (OfRequest 0 In 3) f16 [1, 4]]\<rparr>)],
        events := [SetTensor 0 In 2 (dense_tensor (Allocated 2) f16 [1, 4]),
                   Unpack2 (dense_tensor (Allocated 1) i4 [1, 4]) (dense_tensor (Allocated 5) i4 [1, 1])
                     (dense_tensor (Allocated 4) f16 [1, 1]) (dense_tensor (OfRequest 0 In 1) f16 [1, 4])]\<rparr>"
    by code_simp
  with unpack_closure_follows_rules[OF wf] show ?thesis by simp
qed

subsection \<open>Closures that need no update\<close>

lemma device_of_frame [simp]:
  "device_of (emits evs s) = device_of s" "device_of (rq_put r v s) = device_of s"
  by (cases r; simp add: device_of_def fun_eq_iff emits_def rq_put_def)+

lemma preset_closure_step:
  assumes wf: "closure_wf s i real_idx (Primary real_idx) rq"
    and c: "c < length (closure (compiled_submodels s ! i))"
    and d: "d = compiled_submodels s ! i"
    and dev: "device_of s real_idx = Inr dev"
  shows "preset_closure i real_idx c s =
     Inr (if \<not> update_required d ! c
          then emits [SetTensor (rq_id rq) In (param_base d + c) (bank_get (closure d ! c) dev)]
                 (rq_put (Primary real_idx)
                    (Some (rq\<lparr>rq_in := (rq_in rq)[param_base d + c := bank_get (closure d ! c) dev]\<rparr>)) s)
          else s)"
proof -
  note p = closure_wf_port[OF wf c, folded d]
  show ?thesis
    unfolding preset_closure_def Let_def d[symmetric] p(1) sum.case dev
    using p(4) rq_set_tensor_In[OF p(5) p(3)]
    by simp
qed

lemma preset_loop:
  assumes "closure_wf s i real_idx (Primary real_idx) rq"
    and "set cs \<subseteq> {..<length (closure d)}"
    and "d = compiled_submodels s ! i"
    and "device_of s real_idx = Inr dev"
  shows "for_each cs (preset_closure i real_idx) s =
     Inr (emits (map (\<lambda>c. SetTensor (rq_id rq) In (param_base d + c) (bank_get (closure d ! c) dev))
                   (filter (\<lambda>c. \<not> update_required d ! c) cs))
            (rq_put (Primary real_idx) (Some (rq\<lparr>rq_in := prebound d dev cs (rq_in rq)\<rparr>)) s))"
  using assms
proof (induction cs arbitrary: s rq)
  case Nil
  from Nil.prems(1) have "rq_at s (Primary real_idx) = Inr rq" by (simp add: closure_wf_def)
  then show ?case by (simp add: emits_Nil rq_put_same)
next
  case (Cons c cs)
  from Cons.prems(2) have c: "c < length (closure (compiled_submodels s ! i))"
    and sub: "set cs \<subseteq> {..<length (closure d)}"
    by (simp_all add: Cons.prems(3))
  note step = preset_closure_step[OF Cons.prems(1) c Cons.prems(3,4)]
  show ?case
  proof (cases "update_required d ! c")
    case True
    with step Cons.IH[OF Cons.prems(1) sub Cons.prems(3,4)] show ?thesis by simp
  next
    case False
    let ?rq1 = "rq\<lparr>rq_in := (rq_in rq)[param_base d + c := bank_get (closure d ! c) dev]\<rparr>"
    let ?s1 = "emits [SetTensor (rq_id rq) In (param_base d + c) (bank_get (closure d ! c) dev)]
                 (rq_put (Primary real_idx) (Some ?rq1) s)"
    have wf1: "closure_wf ?s1 i real_idx (Primary real_idx) ?rq1"
      by (rule closure_wf_step[OF Cons.prems(1)]) simp
    have d1: "d = compiled_submodels ?s1 ! i" using Cons.prems(3) by simp
    have dev1: "device_of ?s1 real_idx = Inr dev" using Cons.prems(4) by simp
    have "for_each (c # cs) (preset_closure i real_idx) s = for_each cs (preset_closure i real_idx) ?s1"
      unfolding for_each.simps step using False by simp
    also note Cons.IH[OF wf1 sub d1 dev1]
    finally show ?thesis
      using False by (simp add: rq_put_emits rq_put_rq_put emits_emits)
  qed
qed

lemma prebound_nth:
  assumes "q < length ts"
  shows "prebound d dev cs ts ! q =
           (if \<exists>c\<in>set cs. \<not> update_required d ! c \<and> param_base d + c = q
            then bank_get (closure d ! (q - param_base d)) dev else ts ! q)"
  using assms
proof (induction cs arbitrary: ts)
  case Nil
  then show ?case by simp
next
  case (Cons c cs)
  show ?case
  proof (cases "update_required d ! c")
    case True
    with Cons.IH[OF Cons.prems] show ?thesis by auto
  next
    case False
    have "q < length (ts[param_base d + c := bank_get (closure d ! c) dev])"
      using Cons.prems by simp
    from Cons.IH[OF this] False Cons.prems show ?thesis
      by (auto simp: nth_list_update)
  qed
qed

lemma filter_eq_singleton:
  assumes "distinct xs" "c \<in> set xs"
  shows "filter (\<lambda>x. x = c) xs = [c]"
  using assms by (induction xs) (auto simp: filter_empty_conv)

lemma preset_calls_once:
  assumes "c < length (closure d)" "\<not> update_required d ! c"
  shows "length (filter (sets_port (rq_id rq) (param_base d + c)) (preset_calls d dev rq)) = 1"
proof -
  let ?P = "\<lambda>c. \<not> update_required d ! c"
  have "filter (sets_port (rq_id rq) (param_base d + c)) (preset_calls d dev rq) =
        map (\<lambda>c. SetTensor (rq_id rq) In (param_base d + c) (bank_get (closure d ! c) dev))
          (filter (\<lambda>x. x = c) (filter ?P [0..<length (closure d)]))"
    unfolding preset_calls_def filter_map
    by (rule arg_cong[where f = "map _"], rule filter_cong[OF refl])
       (auto simp: sets_port_def)
  also have "filter (\<lambda>x. x = c) (filter ?P [0..<length (closure d)]) = [c]"
    by (rule filter_eq_singleton) (use assms in auto)
  finally show ?thesis by simp
qed

lemma closure_calls_skip:
  assumes "c < length (closure d)"
    and "closure_rule d copy (elem (rq_in rq ! (param_base d + c))) c = Skip"
  shows "filter (sets_port (rq_id rq) (param_base d + c)) (closure_calls d copy rq) = []"
proof -
  have "\<not> sets_port (rq_id rq) (param_base d + c) ev" if "ev \<in> set (closure_calls d copy rq)" for ev
    using that assms(2)
    by (auto simp: closure_calls_def Let_def sets_port_def rebind_event_def copy_event_def
        unpack_event_def split: closure_action.splits)
  then show ?thesis by (simp add: filter_empty_conv)
qed


text \<open>
  What the code does for a closure \<open>c\<close> of the function call \<open>i\<close> that needs no update.
  The constructor's loop for \<open>i\<close> binds its port of \<open>m_subrequests[real_idx]\<close> once, to
  the tensor of the weights bank.
\<close>

lemma preset_closures_of_binds:
  assumes wf: "closure_wf s i real_idx (Primary real_idx) rq"
    and d: "d = compiled_submodels s ! i"
    and cm: "compiled_model d \<noteq> None" and dev: "device_of s real_idx = Inr dev"
    and c: "c < length (closure d)" and nu: "\<not> update_required d ! c"
  shows "preset_closures_of i s =
           Inr (emits (preset_calls d dev rq)
                  (rq_put (Primary real_idx) (Some (preset_bindings d dev rq)) s))"
    and "length (filter (sets_port (rq_id rq) (param_base d + c)) (preset_calls d dev rq)) = 1"
    and "rq_in (preset_bindings d dev rq) ! (param_base d + c) = bank_get (closure d ! c) dev"
proof -
  from wf have idx: "i < length (compiled_submodels s)"
    "replaced_by (compiled_submodels s ! i) = Some real_idx"
    "real_idx < length (compiled_submodels s)"
    and plen: "param_base d + length (closure d) \<le> length (rq_in rq)"
    unfolding closure_wf_def d by auto
  have pin: "param_base d + c < length (rq_in rq)" using plen c by simp
  have sub: "set [0..<length (closure d)] \<subseteq> {..<length (closure d)}" by auto
  show "preset_closures_of i s =
           Inr (emits (preset_calls d dev rq)
                  (rq_put (Primary real_idx) (Some (preset_bindings d dev rq)) s))"
    using cm idx preset_loop[OF wf sub d dev]
    by (auto simp add: preset_closures_of_def Let_def d[symmetric] preset_calls_def preset_bindings_def)
  show "length (filter (sets_port (rq_id rq) (param_base d + c)) (preset_calls d dev rq)) = 1"
    by (rule preset_calls_once[OF c nu])
  show "rq_in (preset_bindings d dev rq) ! (param_base d + c) = bank_get (closure d ! c) dev"
    using prebound_nth[OF pin, of d dev "[0..<length (closure d)]"] c nu
    by (auto simp: preset_bindings_def)
qed

text \<open>
  \<open>unpack_closure\<close>, on whatever subrequest it is called, leaves such a closure alone when
  the tensor at its port has the closure's element type: it does not bind the port, and
  the port keeps the tensor it had.
\<close>

lemma unpack_closure_skips_static:
  assumes wf: "closure_wf s i real_idx request rq"
    and d: "d = compiled_submodels s ! i" and copy: "copy = needs_copy s i"
    and c: "c < length (closure d)" and nu: "\<not> update_required d ! c"
    and eq: "elem (rq_in rq ! (param_base d + c)) = elem (closure d ! c)"
  shows "unpack_closure i request s =
           Inr (emits (closure_calls d copy rq) (rq_put request (Some (closure_bindings d copy rq)) s))"
    and "closure_rule d copy (elem (rq_in rq ! (param_base d + c))) c = Skip"
    and "filter (sets_port (rq_id rq) (param_base d + c)) (closure_calls d copy rq) = []"
    and "rq_in (closure_bindings d copy rq) ! (param_base d + c) = rq_in rq ! (param_base d + c)"
proof -
  from wf have plen: "param_base d + length (closure d) \<le> length (rq_in rq)"
    unfolding closure_wf_def d by auto
  have pin: "param_base d + c < length (rq_in rq)" using plen c by simp
  show "unpack_closure i request s =
           Inr (emits (closure_calls d copy rq) (rq_put request (Some (closure_bindings d copy rq)) s))"
    unfolding d copy by (rule unpack_closure_result[OF wf])
  show skip: "closure_rule d copy (elem (rq_in rq ! (param_base d + c))) c = Skip"
    using eq nu by (simp add: closure_rule_def)
  show "filter (sets_port (rq_id rq) (param_base d + c)) (closure_calls d copy rq) = []"
    by (rule closure_calls_skip[OF c skip])
  show "rq_in (closure_bindings d copy rq) ! (param_base d + c) = rq_in rq ! (param_base d + c)"
    using rebound_nth[OF pin, of d _ "[0..<length (closure d)]"] skip
    by (auto simp: closure_bindings_def)
qed

text \<open>
  Claim C7 says that the port of a closure that needs no update is bound once, at
  construction, to the tensor of the weights bank, and is left alone from then on. The
  constructor's loop is written to that end (``No update required to this tensor in
  runtime - so it can be set only once''), but it binds \<open>m_subrequests[real_idx]\<close> only.
  With function pipelining the body has a second subrequest,
  \<open>m_funcall_pipeline[real_idx].subrequest\<close>, created along with the first: the scheduler
  prepares it for the next call while the current call runs, and swaps the two when the
  current call is done.

  In \<open>pipeline_example\<close> the function has the calls 0 and 1, with the same weight, which
  needs no update. The constructor binds port 1 of the primary subrequest to the tensor
  of the bank. \<open>prepare_for_infer\<close> calls \<open>unpack_closure\<close> for the head 0 on the primary,
  and the scheduler, while call 0 runs, calls it for call 1 on the reserve: both calls
  skip the closure. Port 1 of the reserve still holds the tensor the subrequest was
  created with. After the swap, call 1 runs on that subrequest with a weight that was
  never bound.
\<close>

theorem static_closure_reserve_unbound:
  "use_function_pipelining pipeline_example \<and>
   funcall_heads pipeline_example = [0] \<and>
   next_call (funcall_pipeline pipeline_example ! 0) = Some 1 \<and>
   real pipeline_example 0 = 0 \<and> real pipeline_example 1 = 0 \<and>
   update_required (compiled_submodels pipeline_example ! 0) = [False] \<and>
   update_required (compiled_submodels pipeline_example ! 1) = [False] \<and>
   rq_get_tensor pipeline_example (Primary 0) In 1 = Inr (dense_tensor (OfRequest 0 In 1) f16 [1, 4]) \<and>
   rq_get_tensor pipeline_example (Reserve 0) In 1 = Inr (dense_tensor (OfRequest 1 In 1) f16 [1, 4]) \<and>
   preset_closures pipeline_example = Inr pipeline_constructed \<and>
   rq_get_tensor pipeline_constructed (Primary 0) In 1 =
     Inr (bank_get (dense_tensor (Allocated 1) f16 [1, 4]) ''NPU'') \<and>
   unpack_closure 0 (Primary 0) pipeline_constructed = Inr pipeline_constructed \<and>
   unpack_closure 1 (Reserve 0) pipeline_constructed = Inr pipeline_constructed \<and>
   rq_get_tensor pipeline_constructed (Reserve 0) In 1 =
     Inr (dense_tensor (OfRequest 1 In 1) f16 [1, 4])"
  by code_simp

section \<open>Cancellation\<close>

text \<open>
  Claim C8 says that \<open>cancel_subrequest(idx)\<close> forwards the call to the live subrequest,
  for a function call the one at \<open>real(idx)\<close>. The code uses \<open>m_subrequests[idx]\<close>: for the
  function call 1 of \<open>funcall_example\<close>, whose body is subgraph 0, it dereferences the
  empty slot 1 and cancels nothing, while \<open>subscribe_subrequest(1)\<close> goes through
  \<open>get_real_subrequest\<close> and reaches the subrequest of the body.
\<close>

theorem cancel_subrequest_funcall:
  "cancel_subrequest 1 funcall_example = Inl (NullDeref, funcall_example) \<and>
   real funcall_example 1 = 0 \<and>
   rq_at funcall_example (get_real_subrequest funcall_example 1) = Inr (rq_1_1 0) \<and>
   subscribe_subrequest 1 funcall_example = Inr (emit (SetCallback 0) funcall_example)"
  by code_simp

text \<open>On a subgraph that has its own subrequest the call is forwarded to it.\<close>

lemma cancel_subrequest_live:
  assumes "rq_at s (Primary i) = Inr rq"
  shows "cancel_subrequest i s = Inr (emit (Cancel (rq_id rq)) s)"
  using assms by (simp add: cancel_subrequest_def)

section \<open>Properties of the spatial loop\<close>

lemma for_each_append:
  "for_each (xs @ ys) body s = and_then (for_each xs body s) (for_each ys body)"
proof (induction xs arbitrary: s)
  case Nil
  show ?case unfolding and_then_def by simp
next
  case (Cons x xs)
  show ?case
  proof (cases "body x s")
    case (Inl e)
    then show ?thesis unfolding and_then_def by simp
  next
    case (Inr s1)
    have "for_each ((x # xs) @ ys) body s = for_each (xs @ ys) body s1"
      using Inr by simp
    also have "\<dots> = and_then (for_each xs body s1) (for_each ys body)"
      by (rule Cons.IH)
    also have "for_each xs body s1 = for_each (x # xs) body s"
      using Inr by simp
    finally show ?thesis .
  qed
qed

lemma for_each_calls:
  assumes "\<And>x s. x \<in> set xs \<Longrightarrow> I s \<Longrightarrow>
             \<exists>s'. body x s = Inr s' \<and> events s' = events s @ f x \<and> I s'"
    and "I s"
  shows "\<exists>s'. for_each xs body s = Inr s' \<and> events s' = events s @ concat (map f xs) \<and> I s'"
  using assms
proof (induction xs arbitrary: s)
  case Nil
  then show ?case by simp
next
  case (Cons x xs)
  from Cons.prems(1)[of x s] Cons.prems(2) obtain s1 where
    s1: "body x s = Inr s1" "events s1 = events s @ f x" "I s1" by auto
  have "\<exists>s'. for_each xs body s1 = Inr s' \<and> events s' = events s1 @ concat (map f xs) \<and> I s'"
    by (rule Cons.IH) (use Cons.prems(1) s1(3) in auto)
  with s1 show ?case by auto
qed

lemma view_viewable:
  assumes "viewable t dim"
  shows "view t dim offset len = Inr (view_of t dim offset len)"
  using assms by (simp add: viewable_def view_def view_ft_def view_of_def)

lemma sio_tensor_viewable:
  assumes "real_idx < length (spatial_io s)" "has_viewable (field (spatial_io s ! real_idx)) k dim"
  shows "sio_tensor s real_idx field k = Inr (the (field (spatial_io s ! real_idx) ! k))"
    and "viewable (the (field (spatial_io s ! real_idx) ! k)) dim"
  using assms by (auto simp: sio_tensor_def has_viewable_def)


lemma fields_rq_put2 [simp]:
  "spatial_io (rq_put r v s) = spatial_io s"
  "infer_outcomes (rq_put r v s) = infer_outcomes s"
  "length (subrequests (rq_put r v s)) = length (subrequests s)"
  by (cases r; simp add: rq_put_def)+

lemma spatial_static_cong:
  assumes "compiled_submodels s' = compiled_submodels s" "spatial_io s' = spatial_io s"
  shows "spatial_static s' real_idx cm sp io = spatial_static s real_idx cm sp io"
  unfolding spatial_static_def assms ..

lemma spatial_wf_emit:
  assumes "spatial_wf s real_idx rid cm sp io"
  shows "spatial_wf (emit ev s) real_idx rid cm sp io" and "events (emit ev s) = events s @ [ev]"
proof -
  have "spatial_static (emit ev s) real_idx cm sp io = spatial_static s real_idx cm sp io"
    by (rule spatial_static_cong) (simp_all add: emit_def)
  moreover have "spatial_rq (emit ev s) real_idx rid cm = spatial_rq s real_idx rid cm"
    by (simp add: spatial_rq_def emit_def)
  moreover have "outcomes_ok (emit ev s) = outcomes_ok s"
    by (simp add: outcomes_ok_def emit_def)
  ultimately show "spatial_wf (emit ev s) real_idx rid cm sp io"
    using assms by (simp add: spatial_wf_def)
  show "events (emit ev s) = events s @ [ev]" by (simp add: emit_def)
qed

lemma spatial_rq_at:
  assumes "spatial_rq s real_idx rid cm"
  obtains rq where "rq_at s (Primary real_idx) = Inr rq" "rq_id rq = rid"
    "length (inputs cm) \<le> length (rq_in rq)" "length (outputs cm) \<le> length (rq_out rq)"
    "real_idx < length (subrequests s)" "subrequests s ! real_idx = Some rq"
  using assms unfolding spatial_rq_def by (auto simp: rq_at_Primary)

lemma spatial_wf_set:
  assumes wf: "spatial_wf s real_idx rid cm sp io"
    and p: "d = In \<and> p < length (inputs cm) \<or> d = Out \<and> p < length (outputs cm)"
  shows "\<exists>s'. rq_set_tensor (Primary real_idx) d p v s = Inr s' \<and>
              events s' = events s @ [SetTensor rid d p v] \<and>
              spatial_wf s' real_idx rid cm sp io"
proof -
  from wf have st: "spatial_static s real_idx cm sp io" and srq: "spatial_rq s real_idx rid cm"
    and ok: "outcomes_ok s" by (simp_all add: spatial_wf_def)
  from srq obtain rq where rq: "rq_at s (Primary real_idx) = Inr rq" "rq_id rq = rid"
    "length (inputs cm) \<le> length (rq_in rq)" "length (outputs cm) \<le> length (rq_out rq)"
    "real_idx < length (subrequests s)" "subrequests s ! real_idx = Some rq"
    by (rule spatial_rq_at)
  from p rq(3,4) obtain rq' where stt: "set_tensor rq d p v = Inr rq'"
    by (auto simp: set_tensor_def)
  note g = set_tensor_get(2,3,4)[OF stt]
  let ?s1 = "rq_put (Primary real_idx) (Some rq') s"
  let ?s' = "emit (SetTensor rid d p v) ?s1"
  have run: "rq_set_tensor (Primary real_idx) d p v s = Inr ?s'"
    by (simp add: rq_set_tensor_def rq(1,2) stt)
  have "spatial_static ?s1 real_idx cm sp io = spatial_static s real_idx cm sp io"
    by (rule spatial_static_cong) simp_all
  with st have "spatial_static ?s1 real_idx cm sp io" by simp
  moreover have "spatial_rq ?s1 real_idx rid cm"
    using rq(2-5) g by (simp add: spatial_rq_def rq_put_def)
  moreover have "outcomes_ok ?s1" using ok by (simp add: outcomes_ok_def)
  ultimately have "spatial_wf ?s1 real_idx rid cm sp io" by (simp add: spatial_wf_def)
  from spatial_wf_emit[OF this, of "SetTensor rid d p v"] run show ?thesis by simp
qed

lemma take_outcome_ok:
  assumes "outcomes_ok s"
  shows "take_outcome s = Inr (s\<lparr>infer_outcomes := tl (infer_outcomes s)\<rparr>)"
    and "outcomes_ok (s\<lparr>infer_outcomes := tl (infer_outcomes s)\<rparr>)"
  using assms by (cases "infer_outcomes s"; simp add: take_outcome_def outcomes_ok_def)+

lemma spatial_wf_infer:
  assumes wf: "spatial_wf s real_idx rid cm sp io"
  shows "\<exists>s'. rq_infer (Primary real_idx) s = Inr s' \<and>
              events s' = events s @ [Infer rid] \<and>
              spatial_wf s' real_idx rid cm sp io"
proof -
  from wf have srq: "spatial_rq s real_idx rid cm" by (simp add: spatial_wf_def)
  from srq obtain rq where rq: "rq_at s (Primary real_idx) = Inr rq" "rq_id rq = rid"
    by (rule spatial_rq_at)
  let ?s1 = "emit (Infer rid) s"
  note w1 = spatial_wf_emit[OF wf, of "Infer rid"]
  from w1(1) have st: "spatial_static ?s1 real_idx cm sp io" and srq1: "spatial_rq ?s1 real_idx rid cm"
    and ok: "outcomes_ok ?s1" by (simp_all add: spatial_wf_def)
  let ?s' = "?s1\<lparr>infer_outcomes := tl (infer_outcomes ?s1)\<rparr>"
  have run: "rq_infer (Primary real_idx) s = Inr ?s'"
    by (simp add: rq_infer_def rq take_outcome_ok(1)[OF ok])
  have "spatial_static ?s' real_idx cm sp io = spatial_static ?s1 real_idx cm sp io"
    by (rule spatial_static_cong) simp_all
  with st have "spatial_static ?s' real_idx cm sp io" by simp
  moreover have "spatial_rq ?s' real_idx rid cm"
    using srq1 by (simp add: spatial_rq_def)
  ultimately have "spatial_wf ?s' real_idx rid cm sp io"
    using take_outcome_ok(2)[OF ok] by (simp add: spatial_wf_def)
  with run w1(2) show ?thesis by simp
qed


lemma spatial_wf_param:
  assumes "spatial_wf s real_idx rid cm sp io" "p \<in> set (params sp)"
  shows "param_idx p < length (inputs cm)"
    and "param_idx p < param_base (compiled_submodels s ! real_idx)"
    and "sio_tensor s real_idx sio_inputs (param_idx p) = Inr (the (sio_inputs io ! param_idx p))"
    and "viewable (the (sio_inputs io ! param_idx p)) (param_dim p)"
    and "tail_size sp > 0 \<Longrightarrow>
           sio_tensor s real_idx input_tails (param_idx p) = Inr (the (input_tails io ! param_idx p))"
    and "tail_size sp > 0 \<Longrightarrow> viewable (the (input_tails io ! param_idx p)) (param_dim p)"
proof -
  from assms have st: "real_idx < length (spatial_io s)" "spatial_io s ! real_idx = io"
    and p: "param_idx p < param_base (compiled_submodels s ! real_idx)"
      "param_idx p < length (inputs cm)"
      "has_viewable (sio_inputs io) (param_idx p) (param_dim p)"
      "tail_size sp > 0 \<longrightarrow> has_viewable (input_tails io) (param_idx p) (param_dim p)"
    unfolding spatial_wf_def spatial_static_def by blast+
  show "param_idx p < length (inputs cm)"
    "param_idx p < param_base (compiled_submodels s ! real_idx)" by (rule p)+
  show "sio_tensor s real_idx sio_inputs (param_idx p) = Inr (the (sio_inputs io ! param_idx p))"
    "viewable (the (sio_inputs io ! param_idx p)) (param_dim p)"
    using sio_tensor_viewable[OF st(1), of sio_inputs "param_idx p" "param_dim p"] p(3) st(2)
    by simp_all
  show "tail_size sp > 0 \<Longrightarrow>
           sio_tensor s real_idx input_tails (param_idx p) = Inr (the (input_tails io ! param_idx p))"
    "tail_size sp > 0 \<Longrightarrow> viewable (the (input_tails io ! param_idx p)) (param_dim p)"
    using sio_tensor_viewable[OF st(1), of input_tails "param_idx p" "param_dim p"] p(4) st(2)
    by simp_all
qed

lemma spatial_wf_output:
  assumes "spatial_wf s real_idx rid cm sp io" "out < length (outputs cm)"
  shows "sio_tensor s real_idx sio_outputs out = Inr (the (sio_outputs io ! out))"
    and "viewable (the (sio_outputs io ! out)) (out_dim sp)"
    and "tail_size sp > 0 \<Longrightarrow>
           sio_tensor s real_idx output_tails out = Inr (the (output_tails io ! out))"
    and "tail_size sp > 0 \<Longrightarrow> viewable (the (output_tails io ! out)) (out_dim sp)"
proof -
  from assms have st: "real_idx < length (spatial_io s)" "spatial_io s ! real_idx = io"
    and p: "has_viewable (sio_outputs io) out (out_dim sp)"
      "tail_size sp > 0 \<longrightarrow> has_viewable (output_tails io) out (out_dim sp)"
    unfolding spatial_wf_def spatial_static_def by blast+
  show "sio_tensor s real_idx sio_outputs out = Inr (the (sio_outputs io ! out))"
    "viewable (the (sio_outputs io ! out)) (out_dim sp)"
    using sio_tensor_viewable[OF st(1), of sio_outputs out "out_dim sp"] p(1) st(2)
    by simp_all
  show "tail_size sp > 0 \<Longrightarrow>
           sio_tensor s real_idx output_tails out = Inr (the (output_tails io ! out))"
    "tail_size sp > 0 \<Longrightarrow> viewable (the (output_tails io ! out)) (out_dim sp)"
    using sio_tensor_viewable[OF st(1), of output_tails out "out_dim sp"] p(2) st(2)
    by simp_all
qed

lemma concat_map_single: "concat (map (\<lambda>x. [g x]) xs) = map g xs"
  by (induction xs) simp_all

lemma bind_inputs_calls:
  assumes "spatial_wf s real_idx rid cm sp io"
  shows "\<exists>s'. for_each (params sp) (spatial_bind_input real_idx cm offset len) s = Inr s' \<and>
     events s' = events s @
       map (\<lambda>p. SetTensor rid In (param_idx p)
                   (view_of (the (sio_inputs io ! param_idx p)) (param_dim p) offset len)) (params sp) \<and>
     spatial_wf s' real_idx rid cm sp io"
proof -
  let ?g = "\<lambda>p. SetTensor rid In (param_idx p)
                   (view_of (the (sio_inputs io ! param_idx p)) (param_dim p) offset len)"
  have "\<exists>s'. for_each (params sp) (spatial_bind_input real_idx cm offset len) s = Inr s' \<and>
     events s' = events s @ concat (map (\<lambda>p. [?g p]) (params sp)) \<and>
     spatial_wf s' real_idx rid cm sp io"
  proof (rule for_each_calls[where I = "\<lambda>s. spatial_wf s real_idx rid cm sp io"])
    fix p s0 assume p: "p \<in> set (params sp)" and wf: "spatial_wf s0 real_idx rid cm sp io"
    note w = spatial_wf_param[OF wf p]
    have "spatial_bind_input real_idx cm offset len p s0 =
            rq_set_tensor (Primary real_idx) In (param_idx p)
              (view_of (the (sio_inputs io ! param_idx p)) (param_dim p) offset len) s0"
      using w(1) by (simp add: spatial_bind_input_def w(3) view_viewable[OF w(4)])
    with spatial_wf_set[OF wf, of In "param_idx p"] w(1)
    show "\<exists>s'. spatial_bind_input real_idx cm offset len p s0 = Inr s' \<and>
               events s' = events s0 @ [?g p] \<and> spatial_wf s' real_idx rid cm sp io"
      by simp
  qed (rule assms)
  then show ?thesis unfolding concat_map_single .
qed

lemma bind_outputs_calls:
  assumes "spatial_wf s real_idx rid cm sp io"
  shows "\<exists>s'. for_each [0..<length (outputs cm)]
                (spatial_bind_output real_idx (out_dim sp) offset len) s = Inr s' \<and>
     events s' = events s @
       map (\<lambda>out. SetTensor rid Out out
                   (view_of (the (sio_outputs io ! out)) (out_dim sp) offset len))
         [0..<length (outputs cm)] \<and>
     spatial_wf s' real_idx rid cm sp io"
proof -
  let ?g = "\<lambda>out. SetTensor rid Out out
                   (view_of (the (sio_outputs io ! out)) (out_dim sp) offset len)"
  have "\<exists>s'. for_each [0..<length (outputs cm)]
                (spatial_bind_output real_idx (out_dim sp) offset len) s = Inr s' \<and>
     events s' = events s @ concat (map (\<lambda>out. [?g out]) [0..<length (outputs cm)]) \<and>
     spatial_wf s' real_idx rid cm sp io"
  proof (rule for_each_calls[where I = "\<lambda>s. spatial_wf s real_idx rid cm sp io"])
    fix out s0 assume "out \<in> set [0..<length (outputs cm)]"
      and wf: "spatial_wf s0 real_idx rid cm sp io"
    then have out: "out < length (outputs cm)" by simp
    note w = spatial_wf_output[OF wf out]
    have "spatial_bind_output real_idx (out_dim sp) offset len out s0 =
            rq_set_tensor (Primary real_idx) Out out
              (view_of (the (sio_outputs io ! out)) (out_dim sp) offset len) s0"
      by (simp add: spatial_bind_output_def w(1) view_viewable[OF w(2)])
    with spatial_wf_set[OF wf, of Out out] out
    show "\<exists>s'. spatial_bind_output real_idx (out_dim sp) offset len out s0 = Inr s' \<and>
               events s' = events s0 @ [?g out] \<and> spatial_wf s' real_idx rid cm sp io"
      by simp
  qed (rule assms)
  then show ?thesis unfolding concat_map_single .
qed

lemma spatial_step_calls:
  assumes "spatial_wf s real_idx rid cm sp io" and k: "k < nway_iters sp"
  shows "\<exists>s'. spatial_step real_idx cm sp i (k * nway sp, s) = Inr (Suc k * nway sp, s') \<and>
     events s' = events s @ iteration_calls rid sp io (length (outputs cm)) k \<and>
     spatial_wf s' real_idx rid cm sp io"
proof -
  from assms(1) have "nway_iters sp * nway sp < 2 ^ 64"
    unfolding spatial_wf_def spatial_static_def by blast
  moreover from k have "Suc k * nway sp \<le> nway_iters sp * nway sp"
    by (intro mult_le_mono1) simp
  ultimately have next_offset: "size_add (k * nway sp) (nway sp) = Suc k * nway sp"
    by (simp add: size_add_def)
  from bind_inputs_calls[OF assms(1), of "k * nway sp" "nway sp"] obtain s1 where
    s1: "for_each (params sp) (spatial_bind_input real_idx cm (k * nway sp) (nway sp)) s = Inr s1"
    "events s1 = events s @
       map (\<lambda>p. SetTensor rid In (param_idx p)
                   (view_of (the (sio_inputs io ! param_idx p)) (param_dim p) (k * nway sp) (nway sp)))
         (params sp)"
    "spatial_wf s1 real_idx rid cm sp io" by blast
  from bind_outputs_calls[OF s1(3), of "k * nway sp" "nway sp"] obtain s2 where
    s2: "for_each [0..<length (outputs cm)]
           (spatial_bind_output real_idx (out_dim sp) (k * nway sp) (nway sp)) s1 = Inr s2"
    "events s2 = events s1 @
       map (\<lambda>out. SetTensor rid Out out
                   (view_of (the (sio_outputs io ! out)) (out_dim sp) (k * nway sp) (nway sp)))
         [0..<length (outputs cm)]"
    "spatial_wf s2 real_idx rid cm sp io" by blast
  from spatial_wf_infer[OF s2(3)] obtain s3 where
    s3: "rq_infer (Primary real_idx) s2 = Inr s3" "events s3 = events s2 @ [Infer rid]"
    "spatial_wf s3 real_idx rid cm sp io" by blast
  have "spatial_step real_idx cm sp i (k * nway sp, s) = Inr (Suc k * nway sp, s3)"
    by (simp add: spatial_step_def s1(1) s2(1) s3(1) and_then_def next_offset)
  moreover have "events s3 = events s @ iteration_calls rid sp io (length (outputs cm)) k"
    by (simp add: s3(2) s2(2) s1(2) iteration_calls_def)
  ultimately show ?thesis using s3(3) by blast
qed

lemma iterations_calls:
  assumes "spatial_wf s real_idx rid cm sp io" and "m \<le> nway_iters sp"
  shows "\<exists>s'. for_each [0..<m] (spatial_step real_idx cm sp) (0, s) = Inr (m * nway sp, s') \<and>
     events s' = events s @ concat (map (iteration_calls rid sp io (length (outputs cm))) [0..<m]) \<and>
     spatial_wf s' real_idx rid cm sp io"
  using assms(2)
proof (induction m)
  case 0
  with assms(1) show ?case by simp
next
  case (Suc m)
  then have m: "m < nway_iters sp" by simp
  with Suc obtain s1 where s1: "for_each [0..<m] (spatial_step real_idx cm sp) (0, s) = Inr (m * nway sp, s1)"
    "events s1 = events s @ concat (map (iteration_calls rid sp io (length (outputs cm))) [0..<m])"
    "spatial_wf s1 real_idx rid cm sp io" by auto
  from spatial_step_calls[OF s1(3) m, of m] obtain s2 where
    s2: "spatial_step real_idx cm sp m (m * nway sp, s1) = Inr (Suc m * nway sp, s2)"
    "events s2 = events s1 @ iteration_calls rid sp io (length (outputs cm)) m"
    "spatial_wf s2 real_idx rid cm sp io" by blast
  have "for_each [0..<Suc m] (spatial_step real_idx cm sp) (0, s) = Inr (Suc m * nway sp, s2)"
    unfolding upt_Suc_append[OF le0] for_each_append s1(1) and_then_def sum.case
    by (simp add: s2(1))
  with s2(2,3) s1(2) show ?case by simp
qed


lemma for_each_id:
  assumes "\<And>x. x \<in> set xs \<Longrightarrow> body x s = Inr s"
  shows "for_each xs body s = Inr s"
  using assms by (induction xs) simp_all

lemma tail_inputs_calls:
  assumes "spatial_wf s real_idx rid cm sp io" "tail_size sp > 0"
  shows "\<exists>s'. for_each (params sp) (tail_input real_idx cm sp offset) s = Inr s' \<and>
     events s' = events s @
       concat (map (\<lambda>p.
         [CopyTo (view_of (the (sio_inputs io ! param_idx p)) (param_dim p) offset (tail_size sp))
                 (view_of (the (input_tails io ! param_idx p)) (param_dim p) 0 (tail_size sp)),
          SetTensor rid In (param_idx p) (the (input_tails io ! param_idx p))]) (params sp)) \<and>
     spatial_wf s' real_idx rid cm sp io"
proof (rule for_each_calls[where I = "\<lambda>s. spatial_wf s real_idx rid cm sp io"])
  fix p s0 assume p: "p \<in> set (params sp)" and wf: "spatial_wf s0 real_idx rid cm sp io"
  note w = spatial_wf_param[OF wf p]
  let ?cp = "CopyTo (view_of (the (sio_inputs io ! param_idx p)) (param_dim p) offset (tail_size sp))
                 (view_of (the (input_tails io ! param_idx p)) (param_dim p) 0 (tail_size sp))"
  have run: "tail_input real_idx cm sp offset p s0 =
          rq_set_tensor (Primary real_idx) In (param_idx p) (the (input_tails io ! param_idx p))
            (emit ?cp s0)"
    using w(1)
    by (simp add: tail_input_def w(3) view_viewable[OF w(4)] w(5)[OF assms(2)]
        view_viewable[OF w(6)[OF assms(2)]])
  note e = spatial_wf_emit[OF wf, of ?cp]
  from spatial_wf_set[OF e(1), of In "param_idx p" "the (input_tails io ! param_idx p)"] w(1)
  show "\<exists>s'. tail_input real_idx cm sp offset p s0 = Inr s' \<and>
             events s' = events s0 @
               [?cp, SetTensor rid In (param_idx p) (the (input_tails io ! param_idx p))] \<and>
             spatial_wf s' real_idx rid cm sp io"
    unfolding run e(2) by simp
qed (rule assms(1))

lemma tail_outputs_calls:
  assumes "spatial_wf s real_idx rid cm sp io" "tail_size sp > 0"
  shows "\<exists>s'. for_each [0..<length (outputs cm)] (tail_bind_output real_idx) s = Inr s' \<and>
     events s' = events s @
       map (\<lambda>out. SetTensor rid Out out (the (output_tails io ! out))) [0..<length (outputs cm)] \<and>
     spatial_wf s' real_idx rid cm sp io"
proof -
  let ?g = "\<lambda>out. SetTensor rid Out out (the (output_tails io ! out))"
  have "\<exists>s'. for_each [0..<length (outputs cm)] (tail_bind_output real_idx) s = Inr s' \<and>
     events s' = events s @ concat (map (\<lambda>out. [?g out]) [0..<length (outputs cm)]) \<and>
     spatial_wf s' real_idx rid cm sp io"
  proof (rule for_each_calls[where I = "\<lambda>s. spatial_wf s real_idx rid cm sp io"])
    fix out s0 assume "out \<in> set [0..<length (outputs cm)]"
      and wf: "spatial_wf s0 real_idx rid cm sp io"
    then have out: "out < length (outputs cm)" by simp
    note w = spatial_wf_output[OF wf out]
    have "tail_bind_output real_idx out s0 =
            rq_set_tensor (Primary real_idx) Out out (the (output_tails io ! out)) s0"
      by (simp add: tail_bind_output_def w(3)[OF assms(2)])
    with spatial_wf_set[OF wf, of Out out] out
    show "\<exists>s'. tail_bind_output real_idx out s0 = Inr s' \<and>
               events s' = events s0 @ [?g out] \<and> spatial_wf s' real_idx rid cm sp io"
      by simp
  qed (rule assms(1))
  then show ?thesis unfolding concat_map_single .
qed

lemma tail_copies_calls:
  assumes "spatial_wf s real_idx rid cm sp io" "tail_size sp > 0"
  shows "\<exists>s'. for_each [0..<length (outputs cm)] (tail_copy_output real_idx sp offset) s = Inr s' \<and>
     events s' = events s @
       map (\<lambda>out. CopyTo (view_of (the (output_tails io ! out)) (out_dim sp) 0 (tail_size sp))
                         (view_of (the (sio_outputs io ! out)) (out_dim sp) offset (tail_size sp)))
         [0..<length (outputs cm)] \<and>
     spatial_wf s' real_idx rid cm sp io"
proof -
  let ?g = "\<lambda>out. CopyTo (view_of (the (output_tails io ! out)) (out_dim sp) 0 (tail_size sp))
                         (view_of (the (sio_outputs io ! out)) (out_dim sp) offset (tail_size sp))"
  have "\<exists>s'. for_each [0..<length (outputs cm)] (tail_copy_output real_idx sp offset) s = Inr s' \<and>
     events s' = events s @ concat (map (\<lambda>out. [?g out]) [0..<length (outputs cm)]) \<and>
     spatial_wf s' real_idx rid cm sp io"
  proof (rule for_each_calls[where I = "\<lambda>s. spatial_wf s real_idx rid cm sp io"])
    fix out s0 assume "out \<in> set [0..<length (outputs cm)]"
      and wf: "spatial_wf s0 real_idx rid cm sp io"
    then have out: "out < length (outputs cm)" by simp
    note w = spatial_wf_output[OF wf out]
    have "tail_copy_output real_idx sp offset out s0 = Inr (emit (?g out) s0)"
      by (simp add: tail_copy_output_def w(1) view_viewable[OF w(2)] w(3)[OF assms(2)]
          view_viewable[OF w(4)[OF assms(2)]])
    with spatial_wf_emit[OF wf, of "?g out"]
    show "\<exists>s'. tail_copy_output real_idx sp offset out s0 = Inr s' \<and>
               events s' = events s0 @ [?g out] \<and> spatial_wf s' real_idx rid cm sp io"
      by simp
  qed (rule assms(1))
  then show ?thesis unfolding concat_map_single .
qed

lemma spatial_tail_calls:
  assumes "spatial_wf s real_idx rid cm sp io" "tail_size sp > 0"
  shows "\<exists>s'. spatial_tail real_idx cm sp (nway_iters sp * nway sp) s = Inr s' \<and>
     events s' = events s @ tail_calls rid sp io (length (outputs cm)) \<and>
     spatial_wf s' real_idx rid cm sp io"
proof -
  from tail_inputs_calls[OF assms, of "nway_iters sp * nway sp"] obtain s1 where
    s1: "for_each (params sp) (tail_input real_idx cm sp (nway_iters sp * nway sp)) s = Inr s1"
    "events s1 = events s @
       concat (map (\<lambda>p.
         [CopyTo (view_of (the (sio_inputs io ! param_idx p)) (param_dim p)
                    (nway_iters sp * nway sp) (tail_size sp))
                 (view_of (the (input_tails io ! param_idx p)) (param_dim p) 0 (tail_size sp)),
          SetTensor rid In (param_idx p) (the (input_tails io ! param_idx p))]) (params sp))"
    "spatial_wf s1 real_idx rid cm sp io" by blast
  from tail_outputs_calls[OF s1(3) assms(2)] obtain s2 where
    s2: "for_each [0..<length (outputs cm)] (tail_bind_output real_idx) s1 = Inr s2"
    "events s2 = events s1 @
       map (\<lambda>out. SetTensor rid Out out (the (output_tails io ! out))) [0..<length (outputs cm)]"
    "spatial_wf s2 real_idx rid cm sp io" by blast
  from spatial_wf_infer[OF s2(3)] obtain s3 where
    s3: "rq_infer (Primary real_idx) s2 = Inr s3" "events s3 = events s2 @ [Infer rid]"
    "spatial_wf s3 real_idx rid cm sp io" by blast
  from tail_copies_calls[OF s3(3) assms(2), of "nway_iters sp * nway sp"] obtain s4 where
    s4: "for_each [0..<length (outputs cm)]
           (tail_copy_output real_idx sp (nway_iters sp * nway sp)) s3 = Inr s4"
    "events s4 = events s3 @
       map (\<lambda>out. CopyTo (view_of (the (output_tails io ! out)) (out_dim sp) 0 (tail_size sp))
                         (view_of (the (sio_outputs io ! out)) (out_dim sp)
                            (nway_iters sp * nway sp) (tail_size sp)))
         [0..<length (outputs cm)]"
    "spatial_wf s4 real_idx rid cm sp io" by blast
  have "spatial_tail real_idx cm sp (nway_iters sp * nway sp) s = Inr s4"
    by (simp add: spatial_tail_def s1(1) s2(1) s3(1) s4(1) and_then_def)
  moreover have "events s4 = events s @ tail_calls rid sp io (length (outputs cm))"
    by (simp add: s4(2) s3(2) s2(2) s1(2) tail_calls_def)
  ultimately show ?thesis using s4(3) by blast
qed

lemma check_shapes_id:
  assumes "spatial_wf s real_idx rid cm sp io"
  shows "for_each (params sp) (check_full_in_shape real_idx (compiled_submodels s ! real_idx)) s = Inr s"
proof (rule for_each_id)
  fix p assume "p \<in> set (params sp)"
  note w = spatial_wf_param[OF assms this]
  show "check_full_in_shape real_idx (compiled_submodels s ! real_idx) p s = Inr s"
    using w(2) by (simp add: check_full_in_shape_def w(3))
qed

lemma infer_count_iteration:
  "length (filter is_infer (iteration_calls rid sp io n k)) = 1"
  by (simp add: iteration_calls_def is_infer_def filter_map o_def)

lemma infer_count_iterations:
  "length (filter is_infer (concat (map (iteration_calls rid sp io n) ks))) = length ks"
  by (induction ks) (simp_all add: infer_count_iteration)

lemma infer_count_tail:
  "length (filter is_infer (tail_calls rid sp io n)) = 1"
proof -
  have "filter is_infer (concat (map (\<lambda>p. [CopyTo (a p) (b p), SetTensor rid In (c p) (d p)]) ps)) = []"
    for a b c d and ps :: "spatial_param list"
    by (induction ps) (simp_all add: is_infer_def)
  then show ?thesis
    by (simp add: tail_calls_def is_infer_def filter_map o_def)
qed

lemma unsafe_infer_spatial_result:
  assumes wf: "spatial_wf s real_idx rid cm sp io"
  shows "\<exists>s'. unsafe_infer real_idx s = Inr s' \<and>
              events s' = events s @ spatial_calls rid sp io (length (outputs cm))"
proof -
  from wf have st: "real_idx < length (compiled_submodels s)" "real_idx < length (subrequests s)"
    "spatial (compiled_submodels s ! real_idx) = Some sp"
    "compiled_model (compiled_submodels s ! real_idx) = Some cm"
    unfolding spatial_wf_def spatial_static_def spatial_rq_def by blast+
  from iterations_calls[OF wf order_refl] obtain s1 where
    s1: "for_each [0..<nway_iters sp] (spatial_step real_idx cm sp) (0, s)
           = Inr (nway_iters sp * nway sp, s1)"
    "events s1 = events s @
       concat (map (iteration_calls rid sp io (length (outputs cm))) [0..<nway_iters sp])"
    "spatial_wf s1 real_idx rid cm sp io" by blast
  show ?thesis
  proof (cases "tail_size sp > 0")
    case False
    then have "unsafe_infer real_idx s = Inr s1"
      using st by (simp add: unsafe_infer_def check_shapes_id[OF wf] s1(1))
    with s1(2) False show ?thesis by (simp add: spatial_calls_def)
  next
    case True
    from spatial_tail_calls[OF s1(3) True] obtain s2 where
      s2: "spatial_tail real_idx cm sp (nway_iters sp * nway sp) s1 = Inr s2"
      "events s2 = events s1 @ tail_calls rid sp io (length (outputs cm))" by blast
    from True have "unsafe_infer real_idx s = Inr s2"
      using st by (simp add: unsafe_infer_def check_shapes_id[OF wf] s1(1) s2(1))
    with s1(2) s2(2) True show ?thesis by (simp add: spatial_calls_def)
  qed
qed

text \<open>
  Claim C2. A spatial body that finds its full tensors and tail buffers, whose offsets
  stay below \<open>2 ^ 64\<close> and whose executions do not throw, makes exactly the calls of the
  specification, in this order: for each \<open>k < nway_iters\<close> the views at offset \<open>k * nway\<close> of length \<open>nway\<close> are bound
  to every spatial input and to every output and the body is run; then, when
  \<open>tail_size > 0\<close>, for every spatial input its slice of length \<open>tail_size\<close> at offset
  \<open>nway_iters * nway\<close> is copied to offset 0 of its tail buffer and the tail buffer is
  bound whole, the output tail buffers are bound whole, the body is run once, and the
  slices of length \<open>tail_size\<close> at offset 0 of the output tail buffers are copied to the
  full outputs at offset \<open>nway_iters * nway\<close> along \<open>out_dim\<close>. The body is run
  \<open>nway_iters\<close> times, plus once when there is a tail. A body that is not spatial is run
  exactly once.
\<close>

theorem unsafe_infer_spatial:
  "(spatial_wf s real_idx rid cm sp io \<longrightarrow>
      (\<exists>s'. unsafe_infer real_idx s = Inr s' \<and>
            events s' = events s @ spatial_calls rid sp io (length (outputs cm))) \<and>
      length (filter is_infer (spatial_calls rid sp io (length (outputs cm))))
        = nway_iters sp + (if tail_size sp > 0 then 1 else 0)) \<and>
   (real_idx < length (compiled_submodels s) \<and>
    spatial (compiled_submodels s ! real_idx) = None \<and>
    rq_at s (Primary real_idx) = Inr rq \<and> outcomes_ok s \<longrightarrow>
      (\<exists>s'. unsafe_infer real_idx s = Inr s' \<and> events s' = events s @ [Infer (rq_id rq)]))"
proof (intro conjI impI)
  assume wf: "spatial_wf s real_idx rid cm sp io"
  show "\<exists>s'. unsafe_infer real_idx s = Inr s' \<and>
            events s' = events s @ spatial_calls rid sp io (length (outputs cm))"
    by (rule unsafe_infer_spatial_result[OF wf])
  show "length (filter is_infer (spatial_calls rid sp io (length (outputs cm))))
        = nway_iters sp + (if tail_size sp > 0 then 1 else 0)"
    by (simp add: spatial_calls_def infer_count_iterations infer_count_tail)
next
  assume a: "real_idx < length (compiled_submodels s) \<and>
    spatial (compiled_submodels s ! real_idx) = None \<and>
    rq_at s (Primary real_idx) = Inr rq \<and> outcomes_ok s"
  then have "outcomes_ok s" by blast
  then have ok: "outcomes_ok (emit (Infer (rq_id rq)) s)"
    by (simp add: outcomes_ok_def emit_def)
  from a have "real_idx < length (subrequests s)" by (simp add: rq_at_Primary)
  with a show "\<exists>s'. unsafe_infer real_idx s = Inr s' \<and> events s' = events s @ [Infer (rq_id rq)]"
    by (simp add: unsafe_infer_def rq_infer_def take_outcome_ok(1)[OF ok, unfolded emit_def] emit_def)
qed


text \<open>
  The spatial request of the example finds everything; its run makes the calls of two
  iterations and the tail, three of them executions of the body. The body of
  \<open>closure_example\<close> is not spatial: it is run once.
\<close>

lemma spatial_example_wf: "spatial_wf spatial_example 0 0 cm_1_1 spatial_10 spatial_io_10"
proof -
  have "spatial_static spatial_example 0 cm_1_1 spatial_10 spatial_io_10"
    by (simp add: spatial_static_def spatial_example_def normal_desc_def empty_desc_def
        empty_state_def spatial_10_def spatial_io_10_def cm_1_1_def has_viewable_def
        viewable_def dense_tensor_def)
  moreover have "spatial_rq spatial_example 0 0 cm_1_1"
    by (simp add: spatial_rq_def spatial_example_def empty_state_def rq_1_1_def cm_1_1_def)
  moreover have "outcomes_ok spatial_example"
    by (simp add: outcomes_ok_def spatial_example_def empty_state_def)
  ultimately show ?thesis by (simp add: spatial_wf_def)
qed

theorem unsafe_infer_spatial_witness:
  "(\<exists>s'. unsafe_infer 0 spatial_example = Inr s' \<and>
         events s' = spatial_calls 0 spatial_10 spatial_io_10 1) \<and>
   length (filter is_infer (spatial_calls 0 spatial_10 spatial_io_10 1)) = 3 \<and>
   (\<exists>s'. unsafe_infer 0 closure_example = Inr s' \<and> events s' = [Infer 0])"
proof -
  have l: "length (outputs cm_1_1) = 1" by (simp add: cm_1_1_def)
  have e: "events spatial_example = []" by (simp add: spatial_example_def empty_state_def)
  have t: "nway_iters spatial_10 + (if tail_size spatial_10 > 0 then 1 else 0) = 3"
    by (simp add: spatial_10_def)
  have n: "0 < length (compiled_submodels closure_example)"
    "spatial (compiled_submodels closure_example ! 0) = None"
    "rq_at closure_example (Primary 0) = Inr (rq_4_1 0)"
    "outcomes_ok closure_example" "events closure_example = []" "rq_id (rq_4_1 0) = 0"
    by (simp_all add: closure_example_def closure_desc_def empty_desc_def empty_state_def
        rq_at_def rq_slot_def outcomes_ok_def rq_4_1_def)
  from unsafe_infer_spatial[of spatial_example 0 0 cm_1_1 spatial_10 spatial_io_10]
    spatial_example_wf
  have "(\<exists>s'. unsafe_infer 0 spatial_example = Inr s' \<and>
         events s' = spatial_calls 0 spatial_10 spatial_io_10 1) \<and>
   length (filter is_infer (spatial_calls 0 spatial_10 spatial_io_10 1)) = 3"
    unfolding l e t by simp
  moreover from unsafe_infer_spatial[of closure_example 0 _ _ _ _ "rq_4_1 0"] n
  have "\<exists>s'. unsafe_infer 0 closure_example = Inr s' \<and> events s' = [Infer 0]"
    by simp
  ultimately show ?thesis by blast
qed

section \<open>The failover loop\<close>

text \<open>
  Claim C1 says that after an attempt that threw, the device iterator of the function
  body \<open>real(idx)\<close> moves on and that body is compiled again, for the next device. The
  code moves the iterator of \<open>comp_model_desc\<close>, the descriptor of \<open>idx\<close> itself, and
  compiles \<open>real_idx\<close>; the check at the head of the loop, \<open>compile_for_success\<close> and
  \<open>recreate_subrequests\<close> (``it is critical here to update the function body, not the
  function calls'') all go by the body. For a call of a function whose body is another
  subgraph the two differ.

  In \<open>failover_example\<close> subgraph 1 is a call of the body 0, and the first execution
  throws. The run of subgraph 1 moves the iterator of subgraph 1 to the second device
  and records that device in the slot of subgraph 1; the iterator of the body stays on
  the first device, and the recreated subrequest runs there again. The run of the body
  itself, subgraph 0, moves the body to the second device. When the second execution
  throws as well, the run of subgraph 1 dereferences the iterator of subgraph 1 at the
  end of the device list, where the run of subgraph 0 fails with no device left.
\<close>

theorem failover_call_site_device:
  "real failover_example 1 = 0 \<and>
   map device_it (compiled_submodels failover_example) = [0, 0, 0] \<and>
   (case run_subrequest_for_success 3 1 failover_example of
      Some (Inr s') \<Rightarrow>
        failover s' \<and>
        map device_it (compiled_submodels s') = [0, 1, 0] \<and>
        subrequest_devices s' = [''NPU'', ''CPU'', ''NPU''] \<and>
        events s' =
          [SetTensor 0 Out 0 (dense_tensor (Allocated 8) f16 [1, 4]), DumpInputs 1,
           StartAsync 0, Wait 0,
           SetTensor 3 Out 0 (dense_tensor (Allocated 8) f16 [1, 4]),
           StartAsync 3, Wait 3, DumpOutputs 1]
    | _ \<Rightarrow> False) \<and>
   (case run_subrequest_for_success 3 0 failover_example of
      Some (Inr s') \<Rightarrow>
        failover s' \<and>
        map device_it (compiled_submodels s') = [1, 0, 0] \<and>
        subrequest_devices s' = [''CPU'', [], ''NPU'']
    | _ \<Rightarrow> False) \<and>
   (case run_subrequest_for_success 3 1 (failover_example\<lparr>infer_outcomes := [False, False]\<rparr>) of
      Some (Inl (e, s')) \<Rightarrow> e = OutOfBounds \<and> map device_it (compiled_submodels s') = [0, 2, 0]
    | _ \<Rightarrow> False) \<and>
   (case run_subrequest_for_success 3 0 (failover_example\<lparr>infer_outcomes := [False, False]\<rparr>) of
      Some (Inl (e, s')) \<Rightarrow> e = NoMoreDevices \<and> map device_it (compiled_submodels s') = [2, 0, 0]
    | _ \<Rightarrow> False)"
  by code_simp

section \<open>The swap of the pipelined subrequests\<close>

text \<open>
  Every step of a run but the failover keeps the plan of the pipeline, the failover flag
  and the identity of the subrequest in every slot, whether it returns or throws.
\<close>

lemma final_simps [simp]:
  "final (Inr s) = s" "final (Inl (e, s)) = s" "final (throw e s) = s"
  "final_of st (Inr a) = st a" "final_of st (Inl (e, s)) = s" "final_of st (throw e s) = s"
  by (simp_all add: final_def final_of_def throw_def)

lemma finalD:
  "m = Inr s' \<Longrightarrow> obs (final m) = v \<Longrightarrow> obs s' = v"
  "m = Inl (e, s') \<Longrightarrow> obs (final m) = v \<Longrightarrow> obs s' = v"
  by (auto simp: final_def)

lemma final_ofD:
  "m = Inr a \<Longrightarrow> obs (final_of st m) = v \<Longrightarrow> obs (st a) = v"
  "m = Inl (e, s') \<Longrightarrow> obs (final_of st m) = v \<Longrightarrow> obs s' = v"
  by (auto simp: final_of_def)

named_theorems obs_dest

lemma obs_emit [simp]: "obs (emit ev s) = obs s"
  by (simp add: obs_def plan_def handle_ids_def emit_def)

lemma map_update_same:
  assumes "i < length xs" "f y = f (xs ! i)"
  shows "map f (xs[i := y]) = map f xs"
  using assms by (simp add: map_update list_update_same_conv)

lemma obs_rq_put:
  assumes "rq_at s r = Inr rq" "rq_id rq' = rq_id rq"
  shows "obs (rq_put r (Some rq') s) = obs s"
proof (cases r)
  case (Primary i)
  with assms have "i < length (subrequests s)" "subrequests s ! i = Some rq"
    by (auto simp: rq_at_def rq_slot_def split: if_splits option.splits)
  with Primary assms(2) show ?thesis
    by (simp add: obs_def plan_def handle_ids_def rq_put_def map_update_same)
next
  case (Reserve i)
  with assms have "i < length (funcall_pipeline s)" "subrequest (funcall_pipeline s ! i) = Some rq"
    by (auto simp: rq_at_def rq_slot_def split: if_splits option.splits)
  with Reserve assms(2) show ?thesis
    by (simp add: obs_def plan_def handle_ids_def rq_put_def map_update_same)
qed

lemma obs_rq_set_tensor [simp]: "obs (final (rq_set_tensor r d p t s)) = obs s"
proof (cases "rq_at s r")
  case (Inl e)
  then show ?thesis by (simp add: rq_set_tensor_def)
next
  case (Inr rq)
  show ?thesis
  proof (cases "set_tensor rq d p t")
    case (Inl e)
    with Inr show ?thesis by (simp add: rq_set_tensor_def)
  next
    case r: (Inr rq')
    then have "rq_id rq' = rq_id rq"
      by (auto simp: set_tensor_def split: io.splits if_splits)
    with Inr r show ?thesis by (simp add: rq_set_tensor_def obs_rq_put)
  qed
qed

lemmas obs_rq_set_tensor_D [obs_dest] = finalD[OF _ obs_rq_set_tensor]

lemma obs_take_outcome [simp]: "obs (final (take_outcome s)) = obs s"
  by (simp add: take_outcome_def obs_def plan_def handle_ids_def split: list.splits)

lemmas obs_take_outcome_D [obs_dest] = finalD[OF _ obs_take_outcome]

lemma obs_rq_infer [simp]: "obs (final (rq_infer r s)) = obs s"
  by (simp add: rq_infer_def split: sum.splits)

lemmas obs_rq_infer_D [obs_dest] = finalD[OF _ obs_rq_infer]

lemma obs_rq_start_async [simp]: "obs (final (rq_start_async r s)) = obs s"
  by (simp add: rq_start_async_def split: sum.splits)

lemmas obs_rq_start_async_D [obs_dest] = finalD[OF _ obs_rq_start_async]

lemma obs_rq_wait [simp]: "obs (final (rq_wait r s)) = obs s"
  by (simp add: rq_wait_def split: sum.splits)

lemmas obs_rq_wait_D [obs_dest] = finalD[OF _ obs_rq_wait]

lemma obs_sio_put [simp]:
  "obs (final (sio_put_input real_idx k t s)) = obs s"
  "obs (final (sio_put_output real_idx k t s)) = obs s"
  by (simp_all add: sio_put_input_def sio_put_output_def Let_def obs_def plan_def handle_ids_def)

lemmas obs_sio_put_D [obs_dest] = finalD[OF _ obs_sio_put(1)] finalD[OF _ obs_sio_put(2)]

text \<open>Sequencing and loops.\<close>

lemma obs_and_then:
  assumes "\<And>s'. obs (final (f s')) = obs s'"
  shows "obs (final (and_then m f)) = obs (final m)"
  using assms by (cases m) (auto simp: and_then_def final_def)

lemma obs_for_each_of:
  assumes "\<And>x a'. obs (final_of st (body x a')) = obs (st a')"
  shows "obs (final_of st (for_each xs body a)) = obs (st a)"
proof (induction xs arbitrary: a)
  case Nil
  then show ?case by simp
next
  case (Cons x xs)
  show ?case
  proof (cases "body x a")
    case (Inl es)
    with assms[of x a] show ?thesis by (simp add: final_of_def)
  next
    case (Inr a1)
    with assms[of x a] Cons.IH[of a1] show ?thesis by simp
  qed
qed

lemma obs_for_each:
  assumes "\<And>x s'. obs (final (body x s')) = obs s'"
  shows "obs (final (for_each xs body s)) = obs s"
  using obs_for_each_of[of "\<lambda>s. s" body xs s] assms
  by (simp add: final_def final_of_def)

text \<open>Wiring.\<close>

lemma obs_connect_link [simp]: "obs (final (connect_link kvp s)) = obs s"
  by (simp add: connect_link_def Let_def split: option.splits sum.splits prod.splits)

lemmas obs_connect_link_D [obs_dest] = finalD[OF _ obs_connect_link]

lemma obs_connect_subrequests [simp]: "obs (final (connect_subrequests s)) = obs s"
  unfolding connect_subrequests_def by (rule obs_for_each) simp

lemmas obs_connect_subrequests_D [obs_dest] = finalD[OF _ obs_connect_subrequests]

text \<open>unpack_closure.\<close>

lemma obs_classify_closure:
  "obs (final_of (\<lambda>a. snd (snd a)) (classify_closure i real_idx request cidx a)) = obs (snd (snd a))"
  by (auto simp: classify_closure_def Let_def split: sum.splits prod.splits dest: obs_dest)

lemma obs_copy_closure [simp]: "obs (final (copy_closure i real_idx request cidx s)) = obs s"
  by (simp add: copy_closure_def Let_def split: sum.splits)

lemmas obs_copy_closure_D [obs_dest] = finalD[OF _ obs_copy_closure]

lemma obs_unpack_one [simp]: "obs (final (unpack_one i real_idx request cidx s)) = obs s"
  by (simp add: unpack_one_def Let_def split: sum.splits option.splits)

lemmas obs_unpack_one_D [obs_dest] = finalD[OF _ obs_unpack_one]

lemma obs_unpack_closure [simp]: "obs (final (unpack_closure i request s)) = obs s"
proof -
  have loop: "obs (final_of (\<lambda>a. snd (snd a))
                 (for_each cs (classify_closure i real_idx request) ([], [], s))) = obs s"
    for cs real_idx
    using obs_for_each_of[of "\<lambda>a. snd (snd a)" "classify_closure i real_idx request" cs "([], [], s)"]
    by (simp add: obs_classify_closure)
  have rest: "obs (final (and_then (for_each cs (copy_closure i real_idx request) s1)
                 (for_each us (unpack_one i real_idx request)))) = obs s1" for cs us real_idx s1
    by (simp add: obs_and_then obs_for_each)
  show ?thesis
    by (auto simp: unpack_closure_def rest split: option.splits sum.splits
        dest: final_ofD[OF _ loop])
qed

lemmas obs_unpack_closure_D [obs_dest] = finalD[OF _ obs_unpack_closure]

text \<open>unsafe_infer.\<close>

lemma obs_check_full_in_shape [simp]: "obs (final (check_full_in_shape real_idx d param s)) = obs s"
  by (simp add: check_full_in_shape_def split: sum.splits)

lemma obs_spatial_bind_input [simp]:
  "obs (final (spatial_bind_input real_idx cm offset len param s)) = obs s"
  by (simp add: spatial_bind_input_def split: sum.splits)

lemma obs_spatial_bind_output [simp]:
  "obs (final (spatial_bind_output real_idx odim offset len out_idx s)) = obs s"
  by (simp add: spatial_bind_output_def split: sum.splits)

lemma obs_spatial_step:
  "obs (final_of snd (spatial_step real_idx cm sp i st)) = obs (snd st)"
proof -
  have inner: "obs (final (and_then
             (and_then
                (for_each (params sp)
                   (spatial_bind_input real_idx cm (fst st) (nway sp)) (snd st))
                (for_each [0..<length (outputs cm)]
                   (spatial_bind_output real_idx (out_dim sp) (fst st) (nway sp))))
             (rq_infer (Primary real_idx)))) = obs (snd st)"
    by (simp add: obs_and_then obs_for_each)
  show ?thesis
    by (auto simp: spatial_step_def split: sum.splits dest: finalD[OF _ inner])
qed

lemma obs_tail_input [simp]: "obs (final (tail_input real_idx cm sp offset param s)) = obs s"
  by (auto simp: tail_input_def split: sum.splits dest: obs_dest)

lemma obs_tail_bind_output [simp]: "obs (final (tail_bind_output real_idx out_idx s)) = obs s"
  by (simp add: tail_bind_output_def split: sum.splits)

lemma obs_tail_copy_output [simp]: "obs (final (tail_copy_output real_idx sp offset out_idx s)) = obs s"
  by (simp add: tail_copy_output_def split: sum.splits)

lemma obs_spatial_tail [simp]: "obs (final (spatial_tail real_idx cm sp offset s)) = obs s"
  by (simp add: spatial_tail_def obs_and_then obs_for_each)

lemmas obs_spatial_tail_D [obs_dest] = finalD[OF _ obs_spatial_tail]

lemma obs_unsafe_infer [simp]: "obs (final (unsafe_infer real_idx s)) = obs s"
proof -
  have checks: "obs (final (for_each ps (check_full_in_shape real_idx d) s)) = obs s" for ps d
    by (simp add: obs_for_each)
  have steps: "obs (final_of snd (for_each ks (spatial_step real_idx cm sp) (0, s0))) = obs s0"
    for ks cm sp s0
    using obs_for_each_of[of snd "spatial_step real_idx cm sp" ks "(0, s0)"]
    by (simp add: obs_spatial_step)
  note c = finalD[OF _ checks]
  note st = final_ofD[OF _ steps]
  show ?thesis
    unfolding unsafe_infer_def Let_def
    apply (simp split: option.splits sum.splits prod.splits)
    apply (intro conjI impI allI)
    apply (auto dest!: c st)
    done
qed

lemmas obs_unsafe_infer_D [obs_dest] = finalD[OF _ obs_unsafe_infer]

text \<open>Binding the global parameters and results.\<close>

lemma obs_bind_global_param:
  "obs (final_of snd (bind_global_param real_idx subr do_copy proto it acc)) = obs (snd acc)"
  by (auto simp: bind_global_param_def Let_def split: sum.splits dest: obs_dest)

lemma obs_copy_global_param [simp]: "obs (final (copy_global_param subr it s)) = obs s"
  by (simp add: copy_global_param_def split: sum.splits)

lemma obs_run_host_gather [simp]: "obs (final (run_host_gather d subr s)) = obs s"
  by (simp add: run_host_gather_def Let_def split: sum.splits option.splits)

lemma obs_bind_global_parameters [simp]: "obs (final (bind_global_parameters idx s)) = obs s"
proof -
  have loop: "obs (final_of snd (for_each ps (bind_global_param real_idx subr do_copy proto) ([], s)))
                = obs s" for ps real_idx subr do_copy proto
    using obs_for_each_of[of snd "bind_global_param real_idx subr do_copy proto" ps "([], s)"]
    by (simp add: obs_bind_global_param)
  have rest: "obs (final (and_then (for_each cs (copy_global_param subr) s1)
                 (run_host_gather d subr))) = obs s1" for cs subr d s1
    by (simp add: obs_and_then obs_for_each)
  show ?thesis
    by (auto simp: bind_global_parameters_def Let_def rest split: sum.splits
        dest: final_ofD[OF _ loop])
qed

lemmas obs_bind_global_parameters_D [obs_dest] = finalD[OF _ obs_bind_global_parameters]

lemma obs_bind_global_result [simp]: "obs (final (bind_global_result idx it s)) = obs s"
  by (simp add: bind_global_result_def Let_def split: sum.splits)

lemma obs_bind_global_results [simp]: "obs (final (bind_global_results idx s)) = obs s"
  by (simp add: bind_global_results_def obs_for_each)

lemmas obs_bind_global_results_D [obs_dest] = finalD[OF _ obs_bind_global_results]


text \<open>function_prologue.\<close>

lemma obs_prologue_param [simp]: "obs (final (prologue_param idx real_idx func_desc i s)) = obs s"
  by (simp add: prologue_param_def Let_def split: sum.splits option.splits)

lemma obs_prologue_result [simp]: "obs (final (prologue_result idx real_idx func_desc i s)) = obs s"
  by (simp add: prologue_result_def split: option.splits)

lemma obs_function_prologue [simp]: "obs (final (function_prologue idx s)) = obs s"
proof -
  have results: "obs (final (case compiled_model fd of
                          None \<Rightarrow> throw NullDeref s2
                        | Some cm \<Rightarrow>
                            for_each [0..<length (outputs cm)]
                              (prologue_result idx r fd) s2)) = obs s2" for fd r s2
    by (simp add: obs_for_each split: option.splits)
  have closures: "obs (final (if \<not> use_function_pipelining s1
                          then unpack_closure idx (Primary r) s1 else Inr s1)) = obs s1" for r s1
    by simp
  have params: "obs (final (for_each ps (prologue_param idx r fd) s)) = obs s" for ps r fd
    by (simp add: obs_for_each)
  show ?thesis
    unfolding function_prologue_def Let_def
    by (simp add: obs_and_then[OF results] obs_and_then[OF closures] params split: option.splits)
qed

lemmas obs_function_prologue_D [obs_dest] = finalD[OF _ obs_function_prologue]

text \<open>Running a subgraph.\<close>

lemma obs_unsafe_during:
  assumes f: "\<And>s'. obs (final (f s')) = obs s'"
  shows "obs (final (unsafe_during real_idx f s)) = obs s"
proof (cases "real_idx < length (compiled_submodels s)")
  case False
  then show ?thesis by (simp add: unsafe_during_def)
next
  case True
  show ?thesis
  proof (cases "spatial (compiled_submodels s ! real_idx)")
    case None
    have wait: "obs (final (rq_wait (Primary real_idx) s')) = obs s'" for s' by simp
    from True None show ?thesis
      by (simp add: unsafe_during_def obs_and_then[OF wait] obs_and_then[OF f])
  next
    case (Some sp)
    show ?thesis
    proof (cases "f s")
      case (Inl es)
      obtain e s' where es: "es = (e, s')" by (cases es)
      with Inl f[of s] have "obs s' = obs s" by simp
      with True Some Inl es show ?thesis by (simp add: unsafe_during_def)
    next
      case (Inr s')
      with f[of s] have "obs s' = obs s" by simp
      with True Some Inr show ?thesis by (simp add: unsafe_during_def)
    qed
  qed
qed

lemma obs_prepare_next [simp]: "obs (final (prepare_next next_idx s)) = obs s"
proof (cases "next_prepared s")
  case True
  then show ?thesis by (simp add: prepare_next_def)
next
  case False
  have flag: "obs (s'\<lparr>next_prepared := True\<rparr>) = obs s'" for s'
    by (simp add: obs_def plan_def handle_ids_def)
  show ?thesis
  proof (cases "bind_global_parameters next_idx s")
    case (Inl es)
    with False finalD(2)[OF _ obs_bind_global_parameters, of next_idx s "fst es" "snd es"]
    show ?thesis by (simp add: prepare_next_def final_def)
  next
    case (Inr s')
    with False finalD(1)[OF Inr obs_bind_global_parameters] show ?thesis
      by (simp add: prepare_next_def flag)
  qed
qed


lemma obs_unsafe_run_this_prep_next [simp]:
  "obs (final (unsafe_run_this_prep_next idx s)) = obs s"
proof (cases "idx < length (compiled_submodels s)")
  case False
  then show ?thesis by (simp add: unsafe_run_this_prep_next_def)
next
  case True
  have same: "obs (final (and_then (bind_global_parameters n s1)
                     (unpack_closure n (Reserve r)))) = obs s1" for n r s1
    by (simp add: obs_and_then)
  have after: "obs (final (and_then (unsafe_infer r s) (bind_global_parameters n))) = obs s" for n r
    by (simp add: obs_and_then)
  have unpack: "obs (final (if use_function_pipelining s2 then
                                     (if \<not> idx < length (funcall_pipeline s2)
                                      then throw OutOfBounds s2
                                      else case next_call (funcall_pipeline s2 ! idx) of
                                        None \<Rightarrow> Inr s2
                                      | Some my_next_idx \<Rightarrow>
                                          unpack_closure my_next_idx (Reserve r) s2)
                                   else Inr s2)) = obs s2" for r s2
    by (simp split: option.splits)
  have other: "obs (final (and_then (prepare_next n s1)
                             (\<lambda>s2. if use_function_pipelining s2 then
                                     (if \<not> idx < length (funcall_pipeline s2)
                                      then throw OutOfBounds s2
                                      else case next_call (funcall_pipeline s2 ! idx) of
                                        None \<Rightarrow> Inr s2
                                      | Some my_next_idx \<Rightarrow>
                                          unpack_closure my_next_idx (Reserve r) s2)
                                   else Inr s2))) = obs s1" for n r s1
    by (simp add: obs_and_then[OF unpack])
  show ?thesis
  proof (cases "replaced_by (compiled_submodels s ! idx)")
    case None
    show ?thesis
    proof (cases "next_sub s (idx + 1) = 0")
      case z: True
      with True None show ?thesis
        by (simp add: unsafe_run_this_prep_next_def Let_def)
    next
      case nz: False
      with True None show ?thesis
        by (simp add: unsafe_run_this_prep_next_def Let_def obs_unsafe_during[OF obs_prepare_next])
    qed
  next
    case (Some rb)
    show ?thesis
    proof (cases "real s idx = real s (next_sub s (idx + 1))")
      case eq: True
      show ?thesis
      proof (cases "use_function_pipelining s")
        case p: True
        show ?thesis
        proof (cases "idx < length (funcall_pipeline s)")
          case False
          with True Some eq p show ?thesis
            by (simp add: unsafe_run_this_prep_next_def Let_def)
        next
          case l: True
          show ?thesis
          proof (cases "next_call (funcall_pipeline s ! idx)")
            case None
            with True Some eq p l show ?thesis
              by (simp add: unsafe_run_this_prep_next_def Let_def)
          next
            case n: (Some n)
            with True Some eq p l show ?thesis
              by (simp add: unsafe_run_this_prep_next_def Let_def obs_unsafe_during[OF same])
          qed
        qed
      next
        case np: False
        with True Some eq show ?thesis
          by (simp add: unsafe_run_this_prep_next_def Let_def after)
      qed
    next
      case ne: False
      show ?thesis
      proof (cases "next_sub s (idx + 1) = 0")
        case z: True
        with True Some ne show ?thesis
          by (simp add: unsafe_run_this_prep_next_def Let_def)
      next
        case nz: False
        with True Some ne show ?thesis
          by (simp add: unsafe_run_this_prep_next_def Let_def obs_unsafe_during[OF other])
      qed
    qed
  qed
qed

lemmas obs_unsafe_run_this_prep_next_D [obs_dest] = finalD[OF _ obs_unsafe_run_this_prep_next]

lemma obs_parts:
  assumes "obs s' = obs s"
  shows "plan s' = plan s" "failover s' = failover s" "handle_ids s' = handle_ids s"
  using assms by (simp_all add: obs_def)

text \<open>Recreating the subrequests changes the handles only.\<close>

lemma plan_rq_put [simp]:
  "plan (rq_put r v s) = plan s" "failover (rq_put r v s) = failover s"
proof -
  have "map next_call ((funcall_pipeline s)[i := (funcall_pipeline s ! i)\<lparr>subrequest := v\<rparr>])
          = map next_call (funcall_pipeline s)" for i
    by (cases "i < length (funcall_pipeline s)") (simp_all add: map_update_same list_update_beyond)
  then show "plan (rq_put r v s) = plan s" "failover (rq_put r v s) = failover s"
    by (cases r; simp add: plan_def rq_put_def)+
qed

lemma plan_recreate_subrequests:
  "plan (final (recreate_subrequests idx s)) = plan s \<and>
   failover (final (recreate_subrequests idx s)) = failover s"
proof -
  have wire: "plan (final (connect_subrequests s')) = plan s' \<and>
              failover (final (connect_subrequests s')) = failover s'" for s'
    using obs_connect_subrequests[of s'] by (simp add: obs_def)
  have devs: "plan (final (case device_of s4 idx of
                            Inl e \<Rightarrow> throw e s4
                          | Inr dev \<Rightarrow>
                              if \<not> idx < length (subrequest_devices s4) then throw OutOfBounds s4
                              else Inr (s4\<lparr>subrequest_devices := (subrequest_devices s4)[idx := dev]\<rparr>)))
              = plan s4 \<and>
              failover (final (case device_of s4 idx of
                            Inl e \<Rightarrow> throw e s4
                          | Inr dev \<Rightarrow>
                              if \<not> idx < length (subrequest_devices s4) then throw OutOfBounds s4
                              else Inr (s4\<lparr>subrequest_devices := (subrequest_devices s4)[idx := dev]\<rparr>)))
              = failover s4" for s4
    by (simp add: plan_def split: sum.splits)
  show ?thesis
  proof (cases "idx < length (compiled_submodels s)")
    case False
    then show ?thesis by (simp add: recreate_subrequests_def)
  next
    case True
    show ?thesis
    proof (cases "create_infer_requests idx (if use_function_pipelining s then 2 else 1) s")
      case (Inl es)
      then have "snd es = s"
        by (auto simp: create_infer_requests_def throw_def split: if_splits option.splits)
      with True Inl show ?thesis by (simp add: recreate_subrequests_def final_def)
    next
      case (Inr rs)
      obtain new_rqs s1 where rs: "rs = (new_rqs, s1)" by (cases rs)
      with Inr have s1: "plan s1 = plan s" "failover s1 = failover s"
        by (auto simp: create_infer_requests_def throw_def plan_def split: if_splits option.splits)
      show ?thesis
      proof (cases "real s idx < length (subrequests s1)")
        case False
        with True Inr rs s1 show ?thesis by (simp add: recreate_subrequests_def Let_def)
      next
        case len: True
        define m where "m = (let s2 = rq_put (Primary (real s idx)) (Some (new_rqs ! 0)) s1
                       in if replaced_by (compiled_submodels s ! idx) \<noteq> None \<and> use_function_pipelining s2
                          then (if \<not> real s idx < length (funcall_pipeline s2)
                                then throw OutOfBounds s2
                                else Inr (rq_put (Reserve (real s idx)) (Some (new_rqs ! 1)) s2))
                          else Inr s2)"
        have m: "plan (final m) = plan s" "failover (final m) = failover s"
          unfolding m_def Let_def using s1 by simp_all
        have "recreate_subrequests idx s =
                and_then (and_then m connect_subrequests)
                   (\<lambda>s4. case device_of s4 idx of
                            Inl e \<Rightarrow> throw e s4
                          | Inr dev \<Rightarrow>
                              if \<not> idx < length (subrequest_devices s4) then throw OutOfBounds s4
                              else Inr (s4\<lparr>subrequest_devices := (subrequest_devices s4)[idx := dev]\<rparr>))"
          using True Inr rs len by (simp add: recreate_subrequests_def Let_def m_def)
        moreover have "plan (final (and_then (and_then m connect_subrequests) k)) = plan s \<and>
                       failover (final (and_then (and_then m connect_subrequests) k)) = failover s"
          if k: "\<And>s4. plan (final (k s4)) = plan s4 \<and> failover (final (k s4)) = failover s4" for k
        proof (cases m)
          case (Inl es)
          with m show ?thesis by (simp add: and_then_def)
        next
          case r2: (Inr s2)
          with m have s2: "plan s2 = plan s" "failover s2 = failover s" by simp_all
          show ?thesis
          proof (cases "connect_subrequests s2")
            case (Inl es)
            with wire[of s2] s2 r2 show ?thesis by (simp add: and_then_def)
          next
            case r3: (Inr s3)
            with wire[of s2] s2 have "plan s3 = plan s" "failover s3 = failover s" by simp_all
            with k[of s3] r2 r3 show ?thesis by (simp add: and_then_def)
          qed
        qed
        ultimately show ?thesis using devs by simp
      qed
    qed
  qed
qed

lemma pf_obs: "obs a = obs b \<Longrightarrow> pf a = pf b"
  by (simp add: obs_def pf_def)

lemma pf_and_then:
  assumes "\<And>s'. pf (final (f s')) = pf s'"
  shows "pf (final (and_then m f)) = pf (final m)"
  using assms by (cases m) (auto simp: and_then_def final_def)

lemma pf_recreate_subrequests [simp]: "pf (final (recreate_subrequests idx s)) = pf s"
  using plan_recreate_subrequests[of idx s] by (simp add: pf_def)

lemma pf_compile_for_success [simp]: "pf (snd (compile_for_success r s)) = pf s"
proof -
  have "map replaced_by ((compiled_submodels s)[r := (compiled_submodels s ! r)\<lparr>device_it := j\<rparr>])
          = map replaced_by (compiled_submodels s)" for j
    by (cases "r < length (compiled_submodels s)") (simp_all add: map_update_same list_update_beyond)
  then show ?thesis
    by (simp add: compile_for_success_def Let_def pf_def plan_def split: list.splits)
qed

lemma pf_next_device:
  "plan (final (next_device idx s)) = plan s" "failover (final (next_device idx s))"
proof -
  have upd: "map replaced_by ((compiled_submodels s)[idx := (compiled_submodels s ! idx)\<lparr>device_it := j\<rparr>])
          = map replaced_by (compiled_submodels s)" for j
    by (cases "idx < length (compiled_submodels s)") (simp_all add: map_update_same list_update_beyond)
  have "pf (final (next_device idx s)) = (plan s, True)"
    apply (simp add: next_device_def Let_def)
    apply (simp add: pf_def plan_def upd)
    done
  then show "plan (final (next_device idx s)) = plan s" "failover (final (next_device idx s))"
    by (simp_all add: pf_def)
qed

lemma pf_simps [simp]:
  "pf (final (bind_global_results idx s)) = pf s"
  "pf (final (function_prologue idx s)) = pf s"
  "pf (emit ev s) = pf s"
  by (rule pf_obs; simp)+

lemma pf_prepare_attempt [simp]: "pf (final (prepare_attempt idx d s)) = pf s"
  unfolding prepare_attempt_def Let_def
  by (simp add: pf_and_then split: sum.splits)

lemma obs_prepare_attempt:
  assumes "device_of s (real s idx) = Inr (subrequest_devices s ! real s idx)"
  shows "obs (final (prepare_attempt idx d s)) = obs s"
  unfolding prepare_attempt_def Let_def
  using assms by (simp add: obs_and_then)

text \<open>The loop of the attempts.\<close>

lemma run_attempts_plan:
  assumes "run_attempts fuel idx d s = Some r"
  shows "plan (final r) = plan s"
  using assms
proof (induction fuel arbitrary: d s)
  case 0
  then show ?case by simp
next
  case (Suc fuel)
  show ?case
  proof (cases "prepare_attempt idx d s")
    case (Inl es)
    with Suc.prems pf_prepare_attempt[of idx d s] show ?thesis
      by (auto simp: pf_def final_def)
  next
    case (Inr s1)
    with pf_prepare_attempt[of idx d s] have s1: "plan s1 = plan s" by (simp add: pf_def)
    show ?thesis
    proof (cases "unsafe_run_this_prep_next idx s1")
      case r2: (Inr s2)
      with obs_unsafe_run_this_prep_next[of idx s1] have "plan s2 = plan s1"
        by (simp add: obs_def)
      with Suc.prems Inr r2 s1 show ?thesis by auto
    next
      case (Inl es)
      obtain e s2 where es: "es = (e, s2)" by (cases es)
      with Inl obs_unsafe_run_this_prep_next[of idx s1] have s2: "plan s2 = plan s1"
        by (simp add: obs_def)
      show ?thesis
      proof (cases "is_exception e")
        case False
        with Suc.prems Inr Inl es s1 s2 show ?thesis by auto
      next
        case True
        show ?thesis
        proof (cases "next_device idx s2")
          case l: (Inl es')
          with pf_next_device(1)[of idx s2] Suc.prems Inr Inl es True s1 s2 show ?thesis
            by (auto simp: final_def)
        next
          case r3: (Inr s3)
          with pf_next_device(1)[of idx s2] have "plan s3 = plan s2" by simp
          moreover from Suc.prems Inr Inl es True r3
          have "run_attempts fuel idx True s3 = Some r" by simp
          ultimately show ?thesis using Suc.IH s1 s2 by simp
        qed
      qed
    qed
  qed
qed

lemma run_attempts_failover:
  assumes "run_attempts fuel idx d s = Some (Inr s')" "failover s"
  shows "failover s'"
  using assms
proof (induction fuel arbitrary: d s)
  case 0
  then show ?case by simp
next
  case (Suc fuel)
  show ?case
  proof (cases "prepare_attempt idx d s")
    case (Inl es)
    with Suc.prems show ?thesis by simp
  next
    case (Inr s1)
    with pf_prepare_attempt[of idx d s] Suc.prems(2) have s1: "failover s1" by (simp add: pf_def)
    show ?thesis
    proof (cases "unsafe_run_this_prep_next idx s1")
      case r2: (Inr s2)
      with obs_unsafe_run_this_prep_next[of idx s1] s1 have "failover s2"
        by (simp add: obs_def)
      with Suc.prems Inr r2 show ?thesis by auto
    next
      case (Inl es)
      obtain e s2 where es: "es = (e, s2)" by (cases es)
      show ?thesis
      proof (cases "next_device idx s2")
        case l: (Inl es')
        with Suc.prems Inr Inl es show ?thesis by (auto split: if_splits)
      next
        case r3: (Inr s3)
        with pf_next_device(2)[of idx s2] have "failover s3" by simp
        moreover from Suc.prems Inr Inl es r3
        have "run_attempts fuel idx True s3 = Some (Inr s')" by (auto split: if_splits)
        ultimately show ?thesis using Suc.IH by simp
      qed
    qed
  qed
qed

lemma run_attempts_first:
  assumes "run_attempts fuel idx d s = Some (Inr s')" "\<not> failover s'"
    and "device_of s (real s idx) = Inr (subrequest_devices s ! real s idx)"
  shows "obs s' = obs s"
proof (cases fuel)
  case 0
  with assms show ?thesis by simp
next
  case (Suc n)
  show ?thesis
  proof (cases "prepare_attempt idx d s")
    case (Inl es)
    with assms Suc show ?thesis by simp
  next
    case (Inr s1)
    with obs_prepare_attempt[OF assms(3), of d] have s1: "obs s1 = obs s" by simp
    show ?thesis
    proof (cases "unsafe_run_this_prep_next idx s1")
      case r2: (Inr s2)
      with obs_unsafe_run_this_prep_next[of idx s1] have "obs s2 = obs s1" by simp
      with assms Suc Inr r2 s1 show ?thesis by auto
    next
      case (Inl es)
      obtain e s2 where es: "es = (e, s2)" by (cases es)
      show ?thesis
      proof (cases "next_device idx s2")
        case l: (Inl es')
        with assms Suc Inr Inl es show ?thesis by (auto split: if_splits)
      next
        case r3: (Inr s3)
        with pf_next_device(2)[of idx s2] have "failover s3" by simp
        moreover from assms Suc Inr Inl es r3
        have "run_attempts n idx True s3 = Some (Inr s')" by (auto split: if_splits)
        ultimately have "failover s'" by (rule run_attempts_failover[rotated])
        with assms(2) show ?thesis by simp
      qed
    qed
  qed
qed


lemma finish_subrequest_cases:
  assumes "finish_subrequest idx s1 = Inr s'"
  shows "failover s' = failover s1"
    and "use_function_pipelining s1 \<Longrightarrow> idx < length (funcall_pipeline s1)"
    and "use_function_pipelining s1 \<Longrightarrow> next_call (funcall_pipeline s1 ! idx) \<noteq> None \<Longrightarrow>
           real s1 idx < length (subrequests s1) \<and> real s1 idx < length (funcall_pipeline s1) \<and>
           subrequests s' = (subrequests s1)[real s1 idx := subrequest (funcall_pipeline s1 ! real s1 idx)] \<and>
           funcall_pipeline s' = (funcall_pipeline s1)
             [real s1 idx := (funcall_pipeline s1 ! real s1 idx)\<lparr>subrequest := subrequests s1 ! real s1 idx\<rparr>]"
    and "\<not> (use_function_pipelining s1 \<and> next_call (funcall_pipeline s1 ! idx) \<noteq> None) \<Longrightarrow>
           subrequests s' = subrequests s1 \<and> funcall_pipeline s' = funcall_pipeline s1"
  using assms
  by (auto simp: finish_subrequest_def Let_def throw_def emit_def rq_put_def real_def
      split: if_splits)

text \<open>
  Claim C6. Let \<open>run_subrequest_for_success(idx)\<close> complete successfully, and let \<open>s1\<close>
  be the request when the subgraph has run, before the outputs are dumped. When function
  pipelining is enabled and the pipeline record of \<open>idx\<close> has its \<open>next\<close> set, the call
  leaves the reserve of the body \<open>real(idx)\<close> in the body's slot of \<open>m_subrequests\<close> and the
  subrequest of that slot as the reserve, and every other handle where it was.
  Otherwise, when \<open>next\<close> is not set or pipelining is off, it leaves every handle where it
  was. Both conditions are those of the request before the call. And when the call made
  no failover and found the body on the device recorded for it, the subrequests of \<open>s1\<close>
  are the ones the request had before the call.
\<close>

theorem pipeline_swap:
  assumes run: "run_subrequest_for_success fuel idx s = Some (Inr s')"
  shows "\<exists>s1. run_attempts fuel idx False (s\<lparr>failover := False, next_prepared := False\<rparr>) = Some (Inr s1) \<and>
     (if use_function_pipelining s \<and> next_call (funcall_pipeline s ! idx) \<noteq> None
      then real s idx < length (subrequests s1) \<and> real s idx < length (funcall_pipeline s1) \<and>
           subrequests s' = (subrequests s1)[real s idx := subrequest (funcall_pipeline s1 ! real s idx)] \<and>
           funcall_pipeline s' = (funcall_pipeline s1)
             [real s idx := (funcall_pipeline s1 ! real s idx)\<lparr>subrequest := subrequests s1 ! real s idx\<rparr>]
      else subrequests s' = subrequests s1 \<and> funcall_pipeline s' = funcall_pipeline s1) \<and>
     (\<not> failover s' \<and> device_of s (real s idx) = Inr (subrequest_devices s ! real s idx) \<longrightarrow>
        handle_ids s1 = handle_ids s)"
proof -
  let ?s0 = "s\<lparr>failover := False, next_prepared := False\<rparr>"
  from run have idx: "idx < length (compiled_submodels s)"
    by (auto simp: run_subrequest_for_success_def throw_def split: if_splits)
  with run obtain s1 where s1: "run_attempts fuel idx False ?s0 = Some (Inr s1)"
    and fin: "finish_subrequest idx s1 = Inr s'"
    by (auto simp: run_subrequest_for_success_def split: option.splits sum.splits)
  note f = finish_subrequest_cases[OF fin]
  from run_attempts_plan[OF s1] have pl: "use_function_pipelining s1 = use_function_pipelining s"
    "map next_call (funcall_pipeline s1) = map next_call (funcall_pipeline s)"
    "map replaced_by (compiled_submodels s1) = map replaced_by (compiled_submodels s)"
    by (simp_all add: plan_def)
  from pl(3) have "length (compiled_submodels s1) = length (compiled_submodels s)"
    by (rule map_eq_imp_length_eq)
  with idx pl(3) have "replaced_by (compiled_submodels s1 ! idx) = replaced_by (compiled_submodels s ! idx)"
    by (metis nth_map)
  then have real: "real s1 idx = real s idx" by (simp add: real_def)
  from pl(2) have len: "length (funcall_pipeline s1) = length (funcall_pipeline s)"
    by (rule map_eq_imp_length_eq)
  have nc: "next_call (funcall_pipeline s1 ! idx) = next_call (funcall_pipeline s ! idx)"
    if "idx < length (funcall_pipeline s1)"
    using that pl(2) len by (metis nth_map)
  have swap: "if use_function_pipelining s \<and> next_call (funcall_pipeline s ! idx) \<noteq> None
      then real s idx < length (subrequests s1) \<and> real s idx < length (funcall_pipeline s1) \<and>
           subrequests s' = (subrequests s1)[real s idx := subrequest (funcall_pipeline s1 ! real s idx)] \<and>
           funcall_pipeline s' = (funcall_pipeline s1)
             [real s idx := (funcall_pipeline s1 ! real s idx)\<lparr>subrequest := subrequests s1 ! real s idx\<rparr>]
      else subrequests s' = subrequests s1 \<and> funcall_pipeline s' = funcall_pipeline s1"
  proof (cases "use_function_pipelining s")
    case False
    with pl(1) f(4) show ?thesis by simp
  next
    case True
    with pl(1) f(2) have "idx < length (funcall_pipeline s1)" by simp
    note n = nc[OF this]
    show ?thesis
    proof (cases "next_call (funcall_pipeline s ! idx)")
      case None
      with n f(4) True show ?thesis by simp
    next
      case (Some k)
      with n True pl(1) f(3) real show ?thesis by simp
    qed
  qed
  have ids: "handle_ids s1 = handle_ids s"
    if "\<not> failover s'" "device_of s (real s idx) = Inr (subrequest_devices s ! real s idx)"
  proof -
    from that(1) f(1) have "\<not> failover s1" by simp
    moreover have "device_of ?s0 = device_of s" "real ?s0 = real s"
      by (simp_all add: device_of_def real_def fun_eq_iff)
    with that(2) have "device_of ?s0 (real ?s0 idx) = Inr (subrequest_devices ?s0 ! real ?s0 idx)"
      by simp
    ultimately have "obs s1 = obs ?s0" by (rule run_attempts_first[OF s1])
    then show ?thesis by (simp add: obs_def handle_ids_def)
  qed
  from s1 swap ids show ?thesis by blast
qed


text \<open>
  In \<open>pipeline_running\<close> the call 0 has a successor: its run swaps the subrequests 0 and
  1 of the body. The normal subgraph 2 has none: its run leaves the handles alone.
\<close>

theorem pipeline_swap_witness:
  "run_subrequest_for_success 1 0 pipeline_running = Some (Inr pipeline_swapped) \<and>
   (\<exists>s1. run_attempts 1 0 False (pipeline_running\<lparr>failover := False, next_prepared := False\<rparr>)
           = Some (Inr s1) \<and>
         subrequests pipeline_swapped = (subrequests s1)[0 := subrequest (funcall_pipeline s1 ! 0)] \<and>
         funcall_pipeline pipeline_swapped =
           (funcall_pipeline s1)[0 := (funcall_pipeline s1 ! 0)\<lparr>subrequest := subrequests s1 ! 0\<rparr>] \<and>
         handle_ids s1 = handle_ids pipeline_running) \<and>
   handle_ids pipeline_running = ([Some 0, None, Some 2], [Some 1, None, None]) \<and>
   handle_ids pipeline_swapped = ([Some 1, None, Some 2], [Some 0, None, None]) \<and>
   (\<exists>s'. run_subrequest_for_success 1 2 pipeline_running = Some (Inr s') \<and>
         handle_ids s' = handle_ids pipeline_running)"
proof -
  have run: "run_subrequest_for_success 1 0 pipeline_running = Some (Inr pipeline_swapped)"
    by code_simp
  have c: "use_function_pipelining pipeline_running \<and>
           next_call (funcall_pipeline pipeline_running ! 0) \<noteq> None"
    by code_simp
  have r: "real pipeline_running 0 = 0" "real pipeline_running 2 = 2" by code_simp+
  have d: "\<not> failover pipeline_swapped"
    "device_of pipeline_running 0 = Inr (subrequest_devices pipeline_running ! 0)"
    "device_of pipeline_running 2 = Inr (subrequest_devices pipeline_running ! 2)"
    by code_simp+
  have h: "handle_ids pipeline_running = ([Some 0, None, Some 2], [Some 1, None, None])"
    "handle_ids pipeline_swapped = ([Some 1, None, Some 2], [Some 0, None, None])"
    by code_simp+
  from pipeline_swap[OF run] c r d
  have first: "\<exists>s1. run_attempts 1 0 False (pipeline_running\<lparr>failover := False, next_prepared := False\<rparr>)
           = Some (Inr s1) \<and>
         subrequests pipeline_swapped = (subrequests s1)[0 := subrequest (funcall_pipeline s1 ! 0)] \<and>
         funcall_pipeline pipeline_swapped =
           (funcall_pipeline s1)[0 := (funcall_pipeline s1 ! 0)\<lparr>subrequest := subrequests s1 ! 0\<rparr>] \<and>
         handle_ids s1 = handle_ids pipeline_running"
    by auto
  have "case run_subrequest_for_success 1 2 pipeline_running of
          Some (Inr s') \<Rightarrow> \<not> failover s' | _ \<Rightarrow> False"
    by code_simp
  then obtain s2 where run2: "run_subrequest_for_success 1 2 pipeline_running = Some (Inr s2)"
    and nf: "\<not> failover s2"
    by (auto split: option.splits sum.splits)
  have c2: "next_call (funcall_pipeline pipeline_running ! 2) = None" by code_simp
  from pipeline_swap[OF run2] c2 r d nf
  have "handle_ids s2 = handle_ids pipeline_running"
    by (auto simp: handle_ids_def)
  with run2 have second: "\<exists>s'. run_subrequest_for_success 1 2 pipeline_running = Some (Inr s') \<and>
         handle_ids s' = handle_ids pipeline_running" by blast
  from run first h second show ?thesis by blast
qed


end
